theory Spec2Isabelle
  imports Main "HOL-Library.Sublist"
begin

section \<open>Strings and characters\<close>

text \<open>
  The log lines and the incident keys are modelled on \<open>string\<close>: a list of 8-bit
  characters, each read as the code point of the same number (U+0000 to U+00FF). The
  character classes below are the ones Python's \<open>str\<close> methods and the \<open>re\<close> module use
  for \<open>str\<close> patterns, on that range: \<open>\s\<close> and \<open>str.strip\<close> share one whitespace
  test, \<open>\d\<close> is the decimal digits, \<open>\w\<close> is the alphanumerics and the underscore.
  The report extractor reads the text of a generator and is modelled on lists of Unicode
  code points (section on the report extractor).
\<close>

definition is_space :: "char \<Rightarrow> bool" where
  "is_space c =
     (let n = (of_char c :: nat)
      in (9 \<le> n \<and> n \<le> 13) \<or> (28 \<le> n \<and> n \<le> 32) \<or> n = 133 \<or> n = 160)"

definition is_decimal :: "char \<Rightarrow> bool" where
  "is_decimal c = (let n = (of_char c :: nat) in 48 \<le> n \<and> n \<le> 57)"

definition is_upper :: "char \<Rightarrow> bool" where
  "is_upper c =
     (let n = (of_char c :: nat)
      in (65 \<le> n \<and> n \<le> 90) \<or> (192 \<le> n \<and> n \<le> 214) \<or> (216 \<le> n \<and> n \<le> 222))"

definition is_word :: "char \<Rightarrow> bool" where
  "is_word c =
     (let n = (of_char c :: nat)
      in (48 \<le> n \<and> n \<le> 57) \<or> (65 \<le> n \<and> n \<le> 90) \<or> n = 95 \<or> (97 \<le> n \<and> n \<le> 122)
         \<or> n = 170 \<or> n = 178 \<or> n = 179 \<or> n = 181 \<or> n = 185 \<or> n = 186
         \<or> (188 \<le> n \<and> n \<le> 190) \<or> (192 \<le> n \<and> n \<le> 214) \<or> (216 \<le> n \<and> n \<le> 246)
         \<or> (248 \<le> n \<and> n \<le> 255))"

text \<open>\<open>str.lower\<close>, one character at a time: the upper-case letters move up by 32.\<close>

definition lower_chr :: "char \<Rightarrow> char" where
  "lower_chr c = (if is_upper c then char_of ((of_char c :: nat) + 32) else c)"

definition lower :: "string \<Rightarrow> string" where
  "lower s = map lower_chr s"

text \<open>\<open>str.strip()\<close>: whitespace is dropped at both ends.\<close>

definition strip :: "string \<Rightarrow> string" where
  "strip s = rev (dropWhile is_space (rev (dropWhile is_space s)))"

text \<open>\<open>sep.join(xs)\<close>.\<close>

fun join :: "string \<Rightarrow> string list \<Rightarrow> string" where
  "join sep [] = []"
| "join sep [x] = x"
| "join sep (x # y # ys) = x @ sep @ join sep (y # ys)"

text \<open>\<open>k in s\<close> on strings: \<open>k\<close> occurs in \<open>s\<close> as a contiguous substring.\<close>

fun py_in :: "string \<Rightarrow> string \<Rightarrow> bool" where
  "py_in k [] = (k = [])"
| "py_in k (c # cs) = (prefix k (c # cs) \<or> py_in k cs)"

text \<open>
  \<open>s.split(sep, 1)\<close> for a non-empty separator: \<open>None\<close> stands for the one-element list
  \<open>[s]\<close> (no separator found), \<open>Some (a, b)\<close> for the two-element list \<open>[a, b]\<close> cut at
  the first occurrence.
\<close>

fun split1 :: "string \<Rightarrow> string \<Rightarrow> (string \<times> string) option" where
  "split1 sep [] = None"
| "split1 sep (c # cs) =
     (if prefix sep (c # cs) then Some ([], drop (length sep) (c # cs))
      else map_option (\<lambda>(a, b). (c # a, b)) (split1 sep cs))"

text \<open>\<open>s.split(d)\<close> for a one-character separator: every piece, empty ones included.\<close>

fun split_chr :: "'c \<Rightarrow> 'c list \<Rightarrow> 'c list list" where
  "split_chr d [] = [[]]"
| "split_chr d (c # cs) =
     (if c = d then [] # split_chr d cs
      else (case split_chr d cs of [] \<Rightarrow> [[c]] | w # ws \<Rightarrow> (c # w) # ws))"

text \<open>
  \<open>s.replace(old, new)\<close>: the occurrences of \<open>old\<close> are replaced from left to right,
  without overlap; an empty \<open>old\<close> puts \<open>new\<close> around every character.
\<close>

fun replace :: "'c list \<Rightarrow> 'c list \<Rightarrow> 'c list \<Rightarrow> 'c list" where
  "replace [] new s = new @ concat (map (\<lambda>c. c # new) s)"
| "replace (p # ps) new [] = []"
| "replace (p # ps) new (c # cs) =
     (if prefix (p # ps) (c # cs) then new @ replace (p # ps) new (drop (length ps) cs)
      else c # replace (p # ps) new cs)"

section \<open>The regular expressions of the program\<close>

text \<open>
  The patterns of the program use literals, character classes, greedy and lazy
  repetition of one character class, groups, alternation, a lookahead, \<open>^\<close> and \<open>$\<close>.
  A pattern is a term of \<open>rx\<close> over the characters \<open>'c\<close> of the text (8-bit characters
  or code points); \<open>ms\<close> is the backtracking matcher: from a state (the position, the
  text from there on, the groups captured so far) it lists every way the pattern can
  match, in the order backtracking tries them, so the head of the list is the match
  \<open>re\<close> reports. A literal \<open>Lit\<close> is the list of the tests its characters make on the
  text (equality, or equality up to letter case under \<open>IGNORECASE\<close>); \<open>Eos nl\<close> is \<open>$\<close>,
  with \<open>nl\<close> the line break of the alphabet.
\<close>

datatype 'c rx =
    Lit "('c \<Rightarrow> bool) list"
  | Cls "'c \<Rightarrow> bool"
  | Star "'c \<Rightarrow> bool"
  | Plus "'c \<Rightarrow> bool"
  | Lazy "'c \<Rightarrow> bool"
  | Seq "'c rx" "'c rx"
  | Alt "'c rx" "'c rx"
  | Grp nat "'c rx"
  | Look "'c rx"
  | Bos
  | Eos 'c

type_synonym 'c mstate = "nat \<times> 'c list \<times> (nat \<rightharpoonup> 'c list)"

text \<open>A literal at the head of the text: every character of the text passes its test.\<close>

fun lit_match :: "('c \<Rightarrow> bool) list \<Rightarrow> 'c list \<Rightarrow> bool" where
  "lit_match [] s = True"
| "lit_match (p # ps) [] = False"
| "lit_match (p # ps) (c # cs) = (p c \<and> lit_match ps cs)"

text \<open>A literal of a pattern compiled without flags: the very characters.\<close>

definition lit :: "'c list \<Rightarrow> 'c rx" where
  "lit w = Lit (map (\<lambda>p c. c = p) w)"

text \<open>Greedy repetition tries the longest run first, lazy repetition the shortest.\<close>

fun star_greedy :: "('c \<Rightarrow> bool) \<Rightarrow> nat \<Rightarrow> 'c list \<Rightarrow> (nat \<times> 'c list) list" where
  "star_greedy P k [] = [(k, [])]"
| "star_greedy P k (c # cs) =
     (if P c then star_greedy P (Suc k) cs else []) @ [(k, c # cs)]"

fun star_lazy :: "('c \<Rightarrow> bool) \<Rightarrow> nat \<Rightarrow> 'c list \<Rightarrow> (nat \<times> 'c list) list" where
  "star_lazy P k [] = [(k, [])]"
| "star_lazy P k (c # cs) =
     (k, c # cs) # (if P c then star_lazy P (Suc k) cs else [])"

fun ms :: "'c rx \<Rightarrow> 'c mstate \<Rightarrow> 'c mstate list" where
  "ms (Lit ps) (k, s, g) =
     (if lit_match ps s then [(k + length ps, drop (length ps) s, g)] else [])"
| "ms (Cls P) (k, s, g) =
     (case s of [] \<Rightarrow> [] | c # cs \<Rightarrow> if P c then [(Suc k, cs, g)] else [])"
| "ms (Star P) (k, s, g) = map (\<lambda>(k', s'). (k', s', g)) (star_greedy P k s)"
| "ms (Plus P) (k, s, g) =
     (case s of [] \<Rightarrow> []
      | c # cs \<Rightarrow> if P c then map (\<lambda>(k', s'). (k', s', g)) (star_greedy P (Suc k) cs) else [])"
| "ms (Lazy P) (k, s, g) = map (\<lambda>(k', s'). (k', s', g)) (star_lazy P k s)"
| "ms (Seq a b) st = concat (map (ms b) (ms a st))"
| "ms (Alt a b) st = ms a st @ ms b st"
| "ms (Grp n a) (k, s, g) =
     map (\<lambda>(k', s', g'). (k', s', g'(n \<mapsto> take (k' - k) s))) (ms a (k, s, g))"
| "ms (Look a) (k, s, g) =
     (case ms a (k, s, g) of [] \<Rightarrow> [] | (_, _, g') # _ \<Rightarrow> [(k, s, g')])"
| "ms Bos (k, s, g) = (if k = 0 then [(k, s, g)] else [])"
| "ms (Eos nl) (k, s, g) = (if s = [] \<or> s = [nl] then [(k, s, g)] else [])"

text \<open>The concatenation of a list of patterns.\<close>

fun cat :: "'c rx list \<Rightarrow> 'c rx" where
  "cat [] = Lit []"
| "cat [r] = r"
| "cat (r # rs) = Seq r (cat rs)"

text \<open>
  \<open>re.match\<close> tries the pattern at position 0 only; \<open>re.search\<close> tries every position
  from the left, the end of the text included, and reports the first that matches.
\<close>

definition re_match :: "'c rx \<Rightarrow> 'c list \<Rightarrow> 'c mstate option" where
  "re_match r s = (case ms r (0, s, Map.empty) of [] \<Rightarrow> None | m # _ \<Rightarrow> Some m)"

fun search_from :: "'c rx \<Rightarrow> nat \<Rightarrow> 'c list \<Rightarrow> 'c mstate option" where
  "search_from r k [] =
     (case ms r (k, [], Map.empty) of [] \<Rightarrow> None | m # _ \<Rightarrow> Some m)"
| "search_from r k (c # cs) =
     (case ms r (k, c # cs, Map.empty) of [] \<Rightarrow> search_from r (Suc k) cs | m # _ \<Rightarrow> Some m)"

definition re_search :: "'c rx \<Rightarrow> 'c list \<Rightarrow> 'c mstate option" where
  "re_search r s = search_from r 0 s"

text \<open>\<open>m.group(n)\<close>: the text of group \<open>n\<close>, \<open>None\<close> when the group took no part.\<close>

definition group :: "'c mstate \<Rightarrow> nat \<Rightarrow> 'c list option" where
  "group m n = (case m of (k, s, g) \<Rightarrow> g n)"

text \<open>
  \<open>re.sub(pattern, repl, s)\<close> with a plain replacement text: the leftmost match is
  replaced and the scan goes on behind it. The two patterns the program passes (\<open>\d+\<close>
  and \<open>\s+\<close>) never match the empty text; for an empty match the replacement is
  written and the scan moves on by one character.
\<close>

function re_sub :: "'c rx \<Rightarrow> 'c list \<Rightarrow> nat \<Rightarrow> 'c list \<Rightarrow> 'c list" where
  "re_sub r repl k s =
     (case ms r (k, s, Map.empty) of
        [] \<Rightarrow> (case s of [] \<Rightarrow> [] | c # cs \<Rightarrow> c # re_sub r repl (Suc k) cs)
      | (k', s', g') # rest \<Rightarrow>
          if length s' < length s then repl @ re_sub r repl k' s'
          else (case s of [] \<Rightarrow> repl | c # cs \<Rightarrow> repl @ c # re_sub r repl (Suc k) cs))"
  by pat_completeness auto
termination
  by (relation "measure (\<lambda>(r, repl, k, s). length s)") auto

declare re_sub.simps [simp del]

section \<open>The program\<close>

subsection \<open>Log records and the line parser\<close>

record LogEntry =
  timestamp :: string
  service :: string
  level :: string
  message :: string

text \<open>The pattern \<^verbatim>\<open>^(\S+)\s+\[([^\]]+)\]\s+(\w+):\s+(.*)$\<close>, no flags.\<close>

definition log_rx :: "char rx" where
  "log_rx = cat
     [Bos, Grp 1 (Plus (\<lambda>c. \<not> is_space c)), Plus is_space,
      lit ''['', Grp 2 (Plus (\<lambda>c. c \<noteq> CHR '']'')), lit '']'', Plus is_space,
      Grp 3 (Plus is_word), lit '':'', Plus is_space,
      Grp 4 (Star (\<lambda>c. c \<noteq> CHR 0x0A)), Eos CHR 0x0A]"

text \<open>
  \<open>m.groups()\<close> unpacked into four names. A group that took no part would give Python's
  \<open>None\<close> as a field; every group of \<open>log_rx\<close> is outside any alternative, so a match
  sets all four (lemma \<open>log_rx_groups\<close>) and the last case is never reached.
\<close>

definition parse_log_line :: "string \<Rightarrow> LogEntry option" where
  "parse_log_line line0 =
     (let line = strip line0
      in if line = [] then None
         else (case re_match log_rx line of
                 None \<Rightarrow> None
               | Some m \<Rightarrow>
                   (case (group m 1, group m 2, group m 3, group m 4) of
                      (Some ts, Some sv, Some lv, Some msg) \<Rightarrow>
                        Some \<lparr>timestamp = ts, service = sv, level = lv, message = msg\<rparr>
                    | _ \<Rightarrow> None)))"

subsection \<open>Incident keys and grouping\<close>

definition derive_incident_key :: "LogEntry \<Rightarrow> string" where
  "derive_incident_key entry =
     (let normalized_msg = re_sub (Plus is_decimal) ''<NUM>'' 0 (lower (message entry));
          normalized_msg = strip (re_sub (Plus is_space) '' '' 0 normalized_msg)
      in service entry @ ''::'' @ normalized_msg)"

text \<open>
  \<open>groups\<close> is a dictionary, which keeps its keys in the order they were first
  inserted: an association list in that order. \<open>groups[key].append(e)\<close> on the
  \<open>defaultdict(list)\<close> appends to the key's list, or adds the key at the end.
\<close>

fun dict_append :: "(string \<times> LogEntry list) list \<Rightarrow> string \<Rightarrow> LogEntry
    \<Rightarrow> (string \<times> LogEntry list) list" where
  "dict_append [] key e = [(key, [e])]"
| "dict_append ((k, es) # groups) key e =
     (if k = key then (k, es @ [e]) # groups else (k, es) # dict_append groups key e)"

definition group_step :: "(string \<times> LogEntry list) list \<Rightarrow> LogEntry
    \<Rightarrow> (string \<times> LogEntry list) list" where
  "group_step groups e =
     (if level e \<notin> {''ERROR'', ''WARN''} then groups
      else dict_append groups (derive_incident_key e) e)"

definition group_incidents :: "LogEntry list \<Rightarrow> (string \<times> LogEntry list) list" where
  "group_incidents entries = foldl group_step [] entries"

subsection \<open>Runbook retrieval\<close>

definition KNOWLEDGE_BASE :: "(string \<times> string) list" where
  "KNOWLEDGE_BASE =
     [(''database connection timeout'',
       ''RUNBOOK-DB-001: Check RDS CPU utilization. If > 80%, scale up read replicas. If normal, check VPC security groups.''),
      (''payment gateway timeout'',
       ''RUNBOOK-PAY-99: Verify Stripe API status page. If Stripe is up, check internal NAT gateway latency.''),
      (''token signature validation'',
       ''RUNBOOK-AUTH-55: Rotate JWT public keys. Check if client clock skew > 5 minutes.''),
      (''slow response'',
       ''RUNBOOK-PERF-12: Check Redis cache hit rate. If < 50%, flush cache or increase memory.'')]"

definition fallback_runbook :: string where
  "fallback_runbook = ''No specific runbook found. Follow general triage SOP.''"

fun scan_kb :: "(string \<times> string) list \<Rightarrow> string \<Rightarrow> string" where
  "scan_kb [] pattern = fallback_runbook"
| "scan_kb ((keyword, runbook) # kb) pattern =
     (if py_in keyword pattern then runbook else scan_kb kb pattern)"

definition retrieve_runbook :: "string \<Rightarrow> string" where
  "retrieve_runbook pattern = scan_kb KNOWLEDGE_BASE pattern"

subsection \<open>The prompt\<close>

datatype error = ValueError | AttributeError

definition render_entry :: "LogEntry \<Rightarrow> string" where
  "render_entry e = timestamp e @ '' ['' @ level e @ ''] '' @ message e"

text \<open>\<open>entries[-5:]\<close>: the last five entries, or all of them when there are fewer.\<close>

definition last5 :: "'a list \<Rightarrow> 'a list" where
  "last5 entries = drop (length entries - 5) entries"

definition prompt_head :: string where
  "prompt_head =
     ''Given the logs, output a triage report.\<newline>\<newline>[EXAMPLE]\<newline>'' @
     ''Input Logs: 2024-01-01 [orders] ERROR connection timed out\<newline>'' @
     ''Runbook context: Check DB.\<newline>'' @
     ''Report:\<newline>'' @
     ''Summary: Database connection failing intermittently.\<newline>'' @
     ''Severity: P2\<newline>'' @
     ''Root Cause: High database load or network partition.\<newline>'' @
     ''Action Items: Check RDS CPU, Investigate VPC logs\<newline>\<newline>[TARGET]\<newline>'' @
     ''Input Logs:\<newline>''"

text \<open>
  Unpacking \<open>incident_key.split("::", 1)\<close> into two names raises \<open>ValueError\<close> when the
  key holds no \<open>::\<close>. The template starts and ends with a line break, which the final
  \<open>strip()\<close> removes.
\<close>

definition build_summary_prompt :: "string \<Rightarrow> LogEntry list \<Rightarrow> error + string" where
  "build_summary_prompt incident_key entries =
     (case split1 ''::'' incident_key of
        None \<Rightarrow> Inl ValueError
      | Some (service', pattern) \<Rightarrow>
          (let logs_text = join ''\<newline>'' (map render_entry (last5 entries));
               runbook_context = retrieve_runbook pattern
           in Inr (strip (''\<newline>'' @ prompt_head @ logs_text @
                ''\<newline>Runbook context: '' @ runbook_context @ ''\<newline>Report:\<newline>''))))"

subsection \<open>The report extractor\<close>

text \<open>
  The extractor reads the text of the generator, which may hold any Unicode character,
  and its patterns are compiled with \<open>IGNORECASE\<close>, which folds some characters beyond
  U+00FF onto ASCII letters. Its text is therefore a list of code points. \<open>cps\<close> gives
  the code points of a literal of the source (all of them ASCII).
\<close>

definition cps :: "string \<Rightarrow> nat list" where
  "cps w = map of_char w"

text \<open>
  Whitespace as \<open>\s\<close> and \<open>str.strip\<close> see it: the ASCII controls 9 to 13 and 28 to 31,
  the blank, U+0085, U+00A0, U+1680, U+2000 to U+200A, U+2028, U+2029, U+202F, U+205F
  and U+3000.
\<close>

definition u_space :: "nat \<Rightarrow> bool" where
  "u_space n =
     ((9 \<le> n \<and> n \<le> 13) \<or> (28 \<le> n \<and> n \<le> 32) \<or> n = 133 \<or> n = 160 \<or> n = 5760
      \<or> (8192 \<le> n \<and> n \<le> 8202) \<or> n = 8232 \<or> n = 8233 \<or> n = 8239 \<or> n = 8287
      \<or> n = 12288)"

text \<open>
  \<open>\d\<close> accepts every decimal digit of the Unicode database of the Python runtime
  (general category Nd): the digits 0 to 9 and the digits of other scripts. The database
  is no part of the program and grows with its versions, so the digits beyond 0 to 9
  are the parameter \<open>nd\<close> of the model.
\<close>

definition u_decimal :: "(nat \<Rightarrow> bool) \<Rightarrow> nat \<Rightarrow> bool" where
  "u_decimal nd n = ((48 \<le> n \<and> n \<le> 57) \<or> nd n)"

text \<open>
  \<open>ic_match p c\<close>: under \<open>IGNORECASE\<close> the ASCII character \<open>p\<close> of a pattern matches
  the character \<open>c\<close> of the text. That is \<open>p\<close> itself, for a letter its other case, and
  the characters the \<open>re\<close> module folds onto a letter: U+017F (long s) onto \<open>s\<close>, U+0130
  and U+0131 (dotted and dotless i) onto \<open>i\<close>, U+212A (kelvin sign) onto \<open>k\<close>.
\<close>

definition ic_match :: "nat \<Rightarrow> nat \<Rightarrow> bool" where
  "ic_match p c =
     (c = p \<or> (65 \<le> p \<and> p \<le> 90 \<and> c = p + 32) \<or> (97 \<le> p \<and> p \<le> 122 \<and> c + 32 = p)
      \<or> ((p = 83 \<or> p = 115) \<and> c = 383)
      \<or> ((p = 73 \<or> p = 105) \<and> (c = 304 \<or> c = 305))
      \<or> ((p = 75 \<or> p = 107) \<and> c = 8490))"

text \<open>A literal of a pattern compiled with \<open>IGNORECASE\<close>.\<close>

definition lit_ic :: "string \<Rightarrow> nat rx" where
  "lit_ic w = Lit (map ic_match (cps w))"

text \<open>\<open>str.strip()\<close> on code points.\<close>

definition u_strip :: "nat list \<Rightarrow> nat list" where
  "u_strip s = rev (dropWhile u_space (rev (dropWhile u_space s)))"

record report =
  summary :: "nat list"
  severity :: "nat list"
  root_cause :: "nat list"
  action_items :: "nat list list"

text \<open>
  The four patterns, all compiled with \<open>IGNORECASE\<close>. The first, the third and the
  fourth are also compiled with \<open>DOTALL\<close>, so their dot is any character. The flag
  \<open>IGNORECASE\<close> also covers the letter \<open>P\<close> of the second. The line break is the code
  point 10.
\<close>

definition any_cp :: "nat \<Rightarrow> bool" where
  "any_cp c = True"

definition summary_rx :: "nat rx" where
  "summary_rx = cat
     [lit_ic ''Summary:'', Star u_space, Grp 1 (Lazy any_cp),
      Look (Alt (Seq (Star u_space) (lit_ic ''Severity:'')) (Eos 10))]"

definition severity_rx :: "(nat \<Rightarrow> bool) \<Rightarrow> nat rx" where
  "severity_rx nd = cat
     [lit_ic ''Severity:'', Star u_space, Grp 1 (Seq (lit_ic ''P'') (Cls (u_decimal nd))),
      Look (Alt (Seq (Star u_space) (lit_ic ''Root Cause:'')) (Eos 10))]"

definition root_cause_rx :: "nat rx" where
  "root_cause_rx = cat
     [lit_ic ''Root Cause:'', Star u_space, Grp 1 (Lazy any_cp),
      Look (Alt (Seq (Star u_space) (lit_ic ''Action Items:'')) (Eos 10))]"

definition actions_rx :: "nat rx" where
  "actions_rx = cat [lit_ic ''Action Items:'', Star u_space, Grp 1 (Star any_cp)]"

text \<open>
  \<open>m.group(1).strip()\<close>: when group 1 took no part, \<open>group\<close> gives \<open>None\<close> and the call
  of \<open>strip\<close> on it raises \<open>AttributeError\<close>.
\<close>

definition group1_strip :: "nat mstate \<Rightarrow> error + nat list" where
  "group1_strip m = (case group m 1 of None \<Rightarrow> Inl AttributeError | Some t \<Rightarrow> Inr (u_strip t))"

definition then_do :: "error + 'a \<Rightarrow> ('a \<Rightarrow> error + 'b) \<Rightarrow> error + 'b" where
  "then_do x f = (case x of Inl e \<Rightarrow> Inl e | Inr v \<Rightarrow> f v)"

definition set_field :: "nat mstate option \<Rightarrow> (nat list \<Rightarrow> report \<Rightarrow> report) \<Rightarrow> report
    \<Rightarrow> error + report" where
  "set_field m_opt upd data =
     (case m_opt of
        None \<Rightarrow> Inr data
      | Some m \<Rightarrow> then_do (group1_strip m) (\<lambda>t. Inr (upd t data)))"

definition split_actions :: "nat list \<Rightarrow> nat list list" where
  "split_actions t =
     (let raw_actions = u_strip (replace (cps ''[TARGET]'') [] t)
      in map u_strip (filter (\<lambda>a. u_strip a \<noteq> []) (split_chr (of_char CHR '','') raw_actions)))"

definition parse_llm_output_to_json :: "(nat \<Rightarrow> bool) \<Rightarrow> nat list \<Rightarrow> error + report" where
  "parse_llm_output_to_json nd text =
     (let data = \<lparr>summary = cps ''N/A'', severity = cps ''P3'', root_cause = cps ''N/A'',
                   action_items = []\<rparr>;
          summary_match = re_search summary_rx text;
          severity_match = re_search (severity_rx nd) text;
          root_cause_match = re_search root_cause_rx text;
          actions_match = re_search actions_rx text
      in then_do (set_field summary_match (\<lambda>t d. d\<lparr>summary := t\<rparr>) data) (\<lambda>data.
         then_do (set_field severity_match (\<lambda>t d. d\<lparr>severity := t\<rparr>) data) (\<lambda>data.
         then_do (set_field root_cause_match (\<lambda>t d. d\<lparr>root_cause := t\<rparr>) data) (\<lambda>data.
         set_field actions_match (\<lambda>t d. d\<lparr>action_items := split_actions t\<rparr>) data))))"

section \<open>Notions of the specification\<close>

text \<open>A record is retained by the grouper when its level is ERROR or WARN.\<close>

definition actionable :: "LogEntry \<Rightarrow> bool" where
  "actionable e = (level e = ''ERROR'' \<or> level e = ''WARN'')"

text \<open>The elements of a list in the order of their first occurrence, each once.\<close>

fun first_seen :: "'a list \<Rightarrow> 'a list" where
  "first_seen [] = []"
| "first_seen (x # xs) = x # removeAll x (first_seen xs)"

text \<open>
  The mapping the specification describes: one entry per key of the retained records,
  in first-seen order, holding the retained records of that key in input order.
\<close>

definition grouped :: "LogEntry list \<Rightarrow> (string \<times> LogEntry list) list" where
  "grouped kept =
     map (\<lambda>k. (k, filter (\<lambda>e. derive_incident_key e = k) kept))
       (first_seen (map derive_incident_key kept))"

text \<open>
  The groups a pattern holds, and whether every match of a pattern sets group \<open>n\<close>
  (the group stands on every path through the pattern).
\<close>

fun grps :: "'c rx \<Rightarrow> nat set" where
  "grps (Seq a b) = grps a \<union> grps b"
| "grps (Alt a b) = grps a \<union> grps b"
| "grps (Grp n a) = insert n (grps a)"
| "grps (Look a) = grps a"
| "grps r = {}"

fun sets_grp :: "nat \<Rightarrow> 'c rx \<Rightarrow> bool" where
  "sets_grp n (Seq a b) = (sets_grp n a \<or> sets_grp n b)"
| "sets_grp n (Alt a b) = (sets_grp n a \<and> sets_grp n b)"
| "sets_grp n (Grp m a) = (n = m \<or> sets_grp n a)"
| "sets_grp n (Look a) = sets_grp n a"
| "sets_grp n r = False"

text \<open>
  The shape the specification asks of a severity, read off the text: somewhere in the
  text stands the label \<open>Severity:\<close> and behind it, after optional whitespace, the letter
  P, one decimal digit, and then the end of the text (or its final line break) or, after
  optional whitespace, the label \<open>Root Cause:\<close>. A label stands at the head of a text
  in any letter case, as \<open>IGNORECASE\<close> folds the characters (\<open>label_at\<close>). With \<open>strict\<close>
  the letter is the capital \<open>P\<close> only; without it \<open>p\<close> counts too.
\<close>

definition label_at :: "string \<Rightarrow> nat list \<Rightarrow> bool" where
  "label_at label s =
     (length label \<le> length s \<and> list_all2 ic_match (cps label) (take (length label) s))"

definition severity_value :: "bool \<Rightarrow> (nat \<Rightarrow> bool) \<Rightarrow> nat list \<Rightarrow> bool" where
  "severity_value strict nd t =
     (case dropWhile u_space t of
        p # d # rest \<Rightarrow>
          (p = of_char CHR ''P'' \<or> (p = of_char CHR ''p'' \<and> \<not> strict)) \<and> u_decimal nd d \<and>
          (rest = [] \<or> rest = [10] \<or> label_at ''Root Cause:'' (dropWhile u_space rest))
      | _ \<Rightarrow> False)"

fun has_severity_shape :: "bool \<Rightarrow> (nat \<Rightarrow> bool) \<Rightarrow> nat list \<Rightarrow> bool" where
  "has_severity_shape strict nd [] = False"
| "has_severity_shape strict nd (c # cs) =
     ((label_at ''Severity:'' (c # cs)
       \<and> severity_value strict nd (drop (length ''Severity:'') (c # cs)))
      \<or> has_severity_shape strict nd cs)"

text \<open>
  A sample of the digits beyond 0 to 9, for the examples: the Arabic-Indic digits
  U+0660 to U+0669.
\<close>

definition arabic_indic :: "nat \<Rightarrow> bool" where
  "arabic_indic n = (1632 \<le> n \<and> n \<le> 1641)"

text \<open>
  Two messages that are the same but for their runs of decimal digits and their runs of
  whitespace: walking both from the left, where both hold a digit the whole run of digits
  is skipped on either side, where both hold whitespace the whole run of whitespace is
  skipped on either side, and everywhere else the two characters are equal.
\<close>

function (sequential) same_runs :: "string \<Rightarrow> string \<Rightarrow> bool" where
  "same_runs [] [] = True"
| "same_runs (a # u) [] = False"
| "same_runs [] (b # v) = False"
| "same_runs (a # u) (b # v) =
     (if is_decimal a \<and> is_decimal b
      then same_runs (dropWhile is_decimal u) (dropWhile is_decimal v)
      else if is_space a \<and> is_space b
      then same_runs (dropWhile is_space u) (dropWhile is_space v)
      else a = b \<and> \<not> is_decimal a \<and> \<not> is_space a \<and> same_runs u v)"
  by pat_completeness auto
termination
  by (relation "measure (\<lambda>(u, v). length u)") (auto simp: less_Suc_eq_le length_dropWhile_le)

text \<open>
  Auxiliary functions of the proofs: \<open>col P repl\<close> replaces every maximal run of
  characters of the class \<open>P\<close> by \<open>repl\<close> (the flag tells whether the scan stands inside
  a run), which is what \<open>re_sub\<close> computes for the pattern \<open>Plus P\<close>; \<open>rstrip\<close> drops the
  whitespace at the end; \<open>normalize\<close> is the message part of an incident key before
  the final \<open>strip\<close>.
\<close>

primrec col :: "(char \<Rightarrow> bool) \<Rightarrow> string \<Rightarrow> bool \<Rightarrow> string \<Rightarrow> string" where
  "col P repl inrun [] = []"
| "col P repl inrun (c # cs) =
     (if P c then (if inrun then col P repl True cs else repl @ col P repl True cs)
      else c # col P repl False cs)"

definition rstrip :: "string \<Rightarrow> string" where
  "rstrip s = rev (dropWhile is_space (rev s))"

definition normalize :: "string \<Rightarrow> string" where
  "normalize m = col is_space '' '' False (col is_decimal ''<NUM>'' False (lower m))"

text \<open>
  The line grammar \<open><timestamp-token> [<service>] <level>: <message>\<close>, each part as
  the pattern reads it: the timestamp is a non-empty run of non-whitespace characters,
  the service a non-empty text without \<open>]\<close>, the level a non-empty run of word
  characters, the message the rest of the line (no line break in it), and the three
  separators \<open>ws1\<close>, \<open>ws2\<close>, \<open>ws3\<close> are non-empty runs of whitespace; \<open>log_line\<close>
  is the line so composed.
\<close>

definition log_grammar :: "string \<Rightarrow> string \<Rightarrow> string \<Rightarrow> string \<Rightarrow> string \<Rightarrow> string \<Rightarrow> string \<Rightarrow> bool" where
  "log_grammar ts ws1 sv ws2 lv ws3 msg \<longleftrightarrow>
     ts \<noteq> [] \<and> list_all (\<lambda>c. \<not> is_space c) ts
     \<and> ws1 \<noteq> [] \<and> list_all is_space ws1
     \<and> sv \<noteq> [] \<and> list_all (\<lambda>c. c \<noteq> CHR '']'') sv
     \<and> ws2 \<noteq> [] \<and> list_all is_space ws2
     \<and> lv \<noteq> [] \<and> list_all is_word lv
     \<and> ws3 \<noteq> [] \<and> list_all is_space ws3
     \<and> list_all (\<lambda>c. c \<noteq> CHR 0x0A) msg"

definition log_line :: "string \<Rightarrow> string \<Rightarrow> string \<Rightarrow> string \<Rightarrow> string \<Rightarrow> string \<Rightarrow> string \<Rightarrow> string" where
  "log_line ts ws1 sv ws2 lv ws3 msg =
     ts @ ws1 @ ''['' @ sv @ '']'' @ ws2 @ lv @ '':'' @ ws3 @ msg"

text \<open>
  Auxiliary predicate of the proofs: the first match the matcher lists from a state ends
  with the text \<open>t\<close> left over and the groups \<open>G\<close>.
\<close>

definition leads :: "'c rx \<Rightarrow> 'c mstate \<Rightarrow> 'c list \<Rightarrow> (nat \<rightharpoonup> 'c list) \<Rightarrow> bool" where
  "leads r st t G = (\<exists>k' rest. ms r st = (k', t, G) # rest)"

section \<open>Facts about the character classes\<close>

lemma of_char_lower:
  "(of_char (lower_chr c) :: nat) = (if is_upper c then of_char c + 32 else of_char c)"
  by (auto simp: lower_chr_def is_upper_def Let_def)

lemma is_space_lower [simp]: "is_space (lower_chr c) = is_space c"
  unfolding is_space_def[of "lower_chr c"] of_char_lower
  by (auto simp: is_space_def is_upper_def Let_def)

lemma is_decimal_lower [simp]: "is_decimal (lower_chr c) = is_decimal c"
  unfolding is_decimal_def[of "lower_chr c"] of_char_lower
  by (auto simp: is_decimal_def is_upper_def Let_def)

lemma lower_space: "is_space c \<Longrightarrow> lower_chr c = c"
  by (auto simp: lower_chr_def is_space_def is_upper_def Let_def)

lemma lower_decimal: "is_decimal c \<Longrightarrow> lower_chr c = c"
  by (auto simp: lower_chr_def is_decimal_def is_upper_def Let_def)

lemma space_not_decimal: "is_space c \<Longrightarrow> \<not> is_decimal c"
  by (auto simp: is_space_def is_decimal_def Let_def)

lemma word_not_space: "is_word c \<Longrightarrow> \<not> is_space c"
  by (auto simp: is_space_def is_word_def Let_def)

text \<open>The classes on the printable characters, the tab and the line break, for evaluation.\<close>

lemma space_tab:
  "is_space (CHR 0x09)"
  "is_space (CHR 0x0A)"
  "is_space (CHR 0x20)"
  "\<not> is_space (CHR 0x21)"
  "\<not> is_space (CHR 0x22)"
  "\<not> is_space (CHR 0x23)"
  "\<not> is_space (CHR 0x24)"
  "\<not> is_space (CHR 0x25)"
  "\<not> is_space (CHR 0x26)"
  "\<not> is_space (CHR 0x27)"
  "\<not> is_space (CHR 0x28)"
  "\<not> is_space (CHR 0x29)"
  "\<not> is_space (CHR 0x2A)"
  "\<not> is_space (CHR 0x2B)"
  "\<not> is_space (CHR 0x2C)"
  "\<not> is_space (CHR 0x2D)"
  "\<not> is_space (CHR 0x2E)"
  "\<not> is_space (CHR 0x2F)"
  "\<not> is_space (CHR 0x30)"
  "\<not> is_space (CHR 0x31)"
  "\<not> is_space (CHR 0x32)"
  "\<not> is_space (CHR 0x33)"
  "\<not> is_space (CHR 0x34)"
  "\<not> is_space (CHR 0x35)"
  "\<not> is_space (CHR 0x36)"
  "\<not> is_space (CHR 0x37)"
  "\<not> is_space (CHR 0x38)"
  "\<not> is_space (CHR 0x39)"
  "\<not> is_space (CHR 0x3A)"
  "\<not> is_space (CHR 0x3B)"
  "\<not> is_space (CHR 0x3C)"
  "\<not> is_space (CHR 0x3D)"
  "\<not> is_space (CHR 0x3E)"
  "\<not> is_space (CHR 0x3F)"
  "\<not> is_space (CHR 0x40)"
  "\<not> is_space (CHR 0x41)"
  "\<not> is_space (CHR 0x42)"
  "\<not> is_space (CHR 0x43)"
  "\<not> is_space (CHR 0x44)"
  "\<not> is_space (CHR 0x45)"
  "\<not> is_space (CHR 0x46)"
  "\<not> is_space (CHR 0x47)"
  "\<not> is_space (CHR 0x48)"
  "\<not> is_space (CHR 0x49)"
  "\<not> is_space (CHR 0x4A)"
  "\<not> is_space (CHR 0x4B)"
  "\<not> is_space (CHR 0x4C)"
  "\<not> is_space (CHR 0x4D)"
  "\<not> is_space (CHR 0x4E)"
  "\<not> is_space (CHR 0x4F)"
  "\<not> is_space (CHR 0x50)"
  "\<not> is_space (CHR 0x51)"
  "\<not> is_space (CHR 0x52)"
  "\<not> is_space (CHR 0x53)"
  "\<not> is_space (CHR 0x54)"
  "\<not> is_space (CHR 0x55)"
  "\<not> is_space (CHR 0x56)"
  "\<not> is_space (CHR 0x57)"
  "\<not> is_space (CHR 0x58)"
  "\<not> is_space (CHR 0x59)"
  "\<not> is_space (CHR 0x5A)"
  "\<not> is_space (CHR 0x5B)"
  "\<not> is_space (CHR 0x5C)"
  "\<not> is_space (CHR 0x5D)"
  "\<not> is_space (CHR 0x5E)"
  "\<not> is_space (CHR 0x5F)"
  "\<not> is_space (CHR 0x60)"
  "\<not> is_space (CHR 0x61)"
  "\<not> is_space (CHR 0x62)"
  "\<not> is_space (CHR 0x63)"
  "\<not> is_space (CHR 0x64)"
  "\<not> is_space (CHR 0x65)"
  "\<not> is_space (CHR 0x66)"
  "\<not> is_space (CHR 0x67)"
  "\<not> is_space (CHR 0x68)"
  "\<not> is_space (CHR 0x69)"
  "\<not> is_space (CHR 0x6A)"
  "\<not> is_space (CHR 0x6B)"
  "\<not> is_space (CHR 0x6C)"
  "\<not> is_space (CHR 0x6D)"
  "\<not> is_space (CHR 0x6E)"
  "\<not> is_space (CHR 0x6F)"
  "\<not> is_space (CHR 0x70)"
  "\<not> is_space (CHR 0x71)"
  "\<not> is_space (CHR 0x72)"
  "\<not> is_space (CHR 0x73)"
  "\<not> is_space (CHR 0x74)"
  "\<not> is_space (CHR 0x75)"
  "\<not> is_space (CHR 0x76)"
  "\<not> is_space (CHR 0x77)"
  "\<not> is_space (CHR 0x78)"
  "\<not> is_space (CHR 0x79)"
  "\<not> is_space (CHR 0x7A)"
  "\<not> is_space (CHR 0x7B)"
  "\<not> is_space (CHR 0x7C)"
  "\<not> is_space (CHR 0x7D)"
  "\<not> is_space (CHR 0x7E)"
  by (simp_all add: is_space_def)

lemma decimal_tab:
  "\<not> is_decimal (CHR 0x09)"
  "\<not> is_decimal (CHR 0x0A)"
  "\<not> is_decimal (CHR 0x20)"
  "\<not> is_decimal (CHR 0x21)"
  "\<not> is_decimal (CHR 0x22)"
  "\<not> is_decimal (CHR 0x23)"
  "\<not> is_decimal (CHR 0x24)"
  "\<not> is_decimal (CHR 0x25)"
  "\<not> is_decimal (CHR 0x26)"
  "\<not> is_decimal (CHR 0x27)"
  "\<not> is_decimal (CHR 0x28)"
  "\<not> is_decimal (CHR 0x29)"
  "\<not> is_decimal (CHR 0x2A)"
  "\<not> is_decimal (CHR 0x2B)"
  "\<not> is_decimal (CHR 0x2C)"
  "\<not> is_decimal (CHR 0x2D)"
  "\<not> is_decimal (CHR 0x2E)"
  "\<not> is_decimal (CHR 0x2F)"
  "is_decimal (CHR 0x30)"
  "is_decimal (CHR 0x31)"
  "is_decimal (CHR 0x32)"
  "is_decimal (CHR 0x33)"
  "is_decimal (CHR 0x34)"
  "is_decimal (CHR 0x35)"
  "is_decimal (CHR 0x36)"
  "is_decimal (CHR 0x37)"
  "is_decimal (CHR 0x38)"
  "is_decimal (CHR 0x39)"
  "\<not> is_decimal (CHR 0x3A)"
  "\<not> is_decimal (CHR 0x3B)"
  "\<not> is_decimal (CHR 0x3C)"
  "\<not> is_decimal (CHR 0x3D)"
  "\<not> is_decimal (CHR 0x3E)"
  "\<not> is_decimal (CHR 0x3F)"
  "\<not> is_decimal (CHR 0x40)"
  "\<not> is_decimal (CHR 0x41)"
  "\<not> is_decimal (CHR 0x42)"
  "\<not> is_decimal (CHR 0x43)"
  "\<not> is_decimal (CHR 0x44)"
  "\<not> is_decimal (CHR 0x45)"
  "\<not> is_decimal (CHR 0x46)"
  "\<not> is_decimal (CHR 0x47)"
  "\<not> is_decimal (CHR 0x48)"
  "\<not> is_decimal (CHR 0x49)"
  "\<not> is_decimal (CHR 0x4A)"
  "\<not> is_decimal (CHR 0x4B)"
  "\<not> is_decimal (CHR 0x4C)"
  "\<not> is_decimal (CHR 0x4D)"
  "\<not> is_decimal (CHR 0x4E)"
  "\<not> is_decimal (CHR 0x4F)"
  "\<not> is_decimal (CHR 0x50)"
  "\<not> is_decimal (CHR 0x51)"
  "\<not> is_decimal (CHR 0x52)"
  "\<not> is_decimal (CHR 0x53)"
  "\<not> is_decimal (CHR 0x54)"
  "\<not> is_decimal (CHR 0x55)"
  "\<not> is_decimal (CHR 0x56)"
  "\<not> is_decimal (CHR 0x57)"
  "\<not> is_decimal (CHR 0x58)"
  "\<not> is_decimal (CHR 0x59)"
  "\<not> is_decimal (CHR 0x5A)"
  "\<not> is_decimal (CHR 0x5B)"
  "\<not> is_decimal (CHR 0x5C)"
  "\<not> is_decimal (CHR 0x5D)"
  "\<not> is_decimal (CHR 0x5E)"
  "\<not> is_decimal (CHR 0x5F)"
  "\<not> is_decimal (CHR 0x60)"
  "\<not> is_decimal (CHR 0x61)"
  "\<not> is_decimal (CHR 0x62)"
  "\<not> is_decimal (CHR 0x63)"
  "\<not> is_decimal (CHR 0x64)"
  "\<not> is_decimal (CHR 0x65)"
  "\<not> is_decimal (CHR 0x66)"
  "\<not> is_decimal (CHR 0x67)"
  "\<not> is_decimal (CHR 0x68)"
  "\<not> is_decimal (CHR 0x69)"
  "\<not> is_decimal (CHR 0x6A)"
  "\<not> is_decimal (CHR 0x6B)"
  "\<not> is_decimal (CHR 0x6C)"
  "\<not> is_decimal (CHR 0x6D)"
  "\<not> is_decimal (CHR 0x6E)"
  "\<not> is_decimal (CHR 0x6F)"
  "\<not> is_decimal (CHR 0x70)"
  "\<not> is_decimal (CHR 0x71)"
  "\<not> is_decimal (CHR 0x72)"
  "\<not> is_decimal (CHR 0x73)"
  "\<not> is_decimal (CHR 0x74)"
  "\<not> is_decimal (CHR 0x75)"
  "\<not> is_decimal (CHR 0x76)"
  "\<not> is_decimal (CHR 0x77)"
  "\<not> is_decimal (CHR 0x78)"
  "\<not> is_decimal (CHR 0x79)"
  "\<not> is_decimal (CHR 0x7A)"
  "\<not> is_decimal (CHR 0x7B)"
  "\<not> is_decimal (CHR 0x7C)"
  "\<not> is_decimal (CHR 0x7D)"
  "\<not> is_decimal (CHR 0x7E)"
  by (simp_all add: is_decimal_def)

lemma word_tab:
  "\<not> is_word (CHR 0x09)"
  "\<not> is_word (CHR 0x0A)"
  "\<not> is_word (CHR 0x20)"
  "\<not> is_word (CHR 0x21)"
  "\<not> is_word (CHR 0x22)"
  "\<not> is_word (CHR 0x23)"
  "\<not> is_word (CHR 0x24)"
  "\<not> is_word (CHR 0x25)"
  "\<not> is_word (CHR 0x26)"
  "\<not> is_word (CHR 0x27)"
  "\<not> is_word (CHR 0x28)"
  "\<not> is_word (CHR 0x29)"
  "\<not> is_word (CHR 0x2A)"
  "\<not> is_word (CHR 0x2B)"
  "\<not> is_word (CHR 0x2C)"
  "\<not> is_word (CHR 0x2D)"
  "\<not> is_word (CHR 0x2E)"
  "\<not> is_word (CHR 0x2F)"
  "is_word (CHR 0x30)"
  "is_word (CHR 0x31)"
  "is_word (CHR 0x32)"
  "is_word (CHR 0x33)"
  "is_word (CHR 0x34)"
  "is_word (CHR 0x35)"
  "is_word (CHR 0x36)"
  "is_word (CHR 0x37)"
  "is_word (CHR 0x38)"
  "is_word (CHR 0x39)"
  "\<not> is_word (CHR 0x3A)"
  "\<not> is_word (CHR 0x3B)"
  "\<not> is_word (CHR 0x3C)"
  "\<not> is_word (CHR 0x3D)"
  "\<not> is_word (CHR 0x3E)"
  "\<not> is_word (CHR 0x3F)"
  "\<not> is_word (CHR 0x40)"
  "is_word (CHR 0x41)"
  "is_word (CHR 0x42)"
  "is_word (CHR 0x43)"
  "is_word (CHR 0x44)"
  "is_word (CHR 0x45)"
  "is_word (CHR 0x46)"
  "is_word (CHR 0x47)"
  "is_word (CHR 0x48)"
  "is_word (CHR 0x49)"
  "is_word (CHR 0x4A)"
  "is_word (CHR 0x4B)"
  "is_word (CHR 0x4C)"
  "is_word (CHR 0x4D)"
  "is_word (CHR 0x4E)"
  "is_word (CHR 0x4F)"
  "is_word (CHR 0x50)"
  "is_word (CHR 0x51)"
  "is_word (CHR 0x52)"
  "is_word (CHR 0x53)"
  "is_word (CHR 0x54)"
  "is_word (CHR 0x55)"
  "is_word (CHR 0x56)"
  "is_word (CHR 0x57)"
  "is_word (CHR 0x58)"
  "is_word (CHR 0x59)"
  "is_word (CHR 0x5A)"
  "\<not> is_word (CHR 0x5B)"
  "\<not> is_word (CHR 0x5C)"
  "\<not> is_word (CHR 0x5D)"
  "\<not> is_word (CHR 0x5E)"
  "is_word (CHR 0x5F)"
  "\<not> is_word (CHR 0x60)"
  "is_word (CHR 0x61)"
  "is_word (CHR 0x62)"
  "is_word (CHR 0x63)"
  "is_word (CHR 0x64)"
  "is_word (CHR 0x65)"
  "is_word (CHR 0x66)"
  "is_word (CHR 0x67)"
  "is_word (CHR 0x68)"
  "is_word (CHR 0x69)"
  "is_word (CHR 0x6A)"
  "is_word (CHR 0x6B)"
  "is_word (CHR 0x6C)"
  "is_word (CHR 0x6D)"
  "is_word (CHR 0x6E)"
  "is_word (CHR 0x6F)"
  "is_word (CHR 0x70)"
  "is_word (CHR 0x71)"
  "is_word (CHR 0x72)"
  "is_word (CHR 0x73)"
  "is_word (CHR 0x74)"
  "is_word (CHR 0x75)"
  "is_word (CHR 0x76)"
  "is_word (CHR 0x77)"
  "is_word (CHR 0x78)"
  "is_word (CHR 0x79)"
  "is_word (CHR 0x7A)"
  "\<not> is_word (CHR 0x7B)"
  "\<not> is_word (CHR 0x7C)"
  "\<not> is_word (CHR 0x7D)"
  "\<not> is_word (CHR 0x7E)"
  by (simp_all add: is_word_def)

lemma lower_tab:
  "lower_chr (CHR 0x09) = CHR 0x09"
  "lower_chr (CHR 0x0A) = CHR 0x0A"
  "lower_chr (CHR 0x20) = CHR 0x20"
  "lower_chr (CHR 0x21) = CHR 0x21"
  "lower_chr (CHR 0x22) = CHR 0x22"
  "lower_chr (CHR 0x23) = CHR 0x23"
  "lower_chr (CHR 0x24) = CHR 0x24"
  "lower_chr (CHR 0x25) = CHR 0x25"
  "lower_chr (CHR 0x26) = CHR 0x26"
  "lower_chr (CHR 0x27) = CHR 0x27"
  "lower_chr (CHR 0x28) = CHR 0x28"
  "lower_chr (CHR 0x29) = CHR 0x29"
  "lower_chr (CHR 0x2A) = CHR 0x2A"
  "lower_chr (CHR 0x2B) = CHR 0x2B"
  "lower_chr (CHR 0x2C) = CHR 0x2C"
  "lower_chr (CHR 0x2D) = CHR 0x2D"
  "lower_chr (CHR 0x2E) = CHR 0x2E"
  "lower_chr (CHR 0x2F) = CHR 0x2F"
  "lower_chr (CHR 0x30) = CHR 0x30"
  "lower_chr (CHR 0x31) = CHR 0x31"
  "lower_chr (CHR 0x32) = CHR 0x32"
  "lower_chr (CHR 0x33) = CHR 0x33"
  "lower_chr (CHR 0x34) = CHR 0x34"
  "lower_chr (CHR 0x35) = CHR 0x35"
  "lower_chr (CHR 0x36) = CHR 0x36"
  "lower_chr (CHR 0x37) = CHR 0x37"
  "lower_chr (CHR 0x38) = CHR 0x38"
  "lower_chr (CHR 0x39) = CHR 0x39"
  "lower_chr (CHR 0x3A) = CHR 0x3A"
  "lower_chr (CHR 0x3B) = CHR 0x3B"
  "lower_chr (CHR 0x3C) = CHR 0x3C"
  "lower_chr (CHR 0x3D) = CHR 0x3D"
  "lower_chr (CHR 0x3E) = CHR 0x3E"
  "lower_chr (CHR 0x3F) = CHR 0x3F"
  "lower_chr (CHR 0x40) = CHR 0x40"
  "lower_chr (CHR 0x41) = CHR 0x61"
  "lower_chr (CHR 0x42) = CHR 0x62"
  "lower_chr (CHR 0x43) = CHR 0x63"
  "lower_chr (CHR 0x44) = CHR 0x64"
  "lower_chr (CHR 0x45) = CHR 0x65"
  "lower_chr (CHR 0x46) = CHR 0x66"
  "lower_chr (CHR 0x47) = CHR 0x67"
  "lower_chr (CHR 0x48) = CHR 0x68"
  "lower_chr (CHR 0x49) = CHR 0x69"
  "lower_chr (CHR 0x4A) = CHR 0x6A"
  "lower_chr (CHR 0x4B) = CHR 0x6B"
  "lower_chr (CHR 0x4C) = CHR 0x6C"
  "lower_chr (CHR 0x4D) = CHR 0x6D"
  "lower_chr (CHR 0x4E) = CHR 0x6E"
  "lower_chr (CHR 0x4F) = CHR 0x6F"
  "lower_chr (CHR 0x50) = CHR 0x70"
  "lower_chr (CHR 0x51) = CHR 0x71"
  "lower_chr (CHR 0x52) = CHR 0x72"
  "lower_chr (CHR 0x53) = CHR 0x73"
  "lower_chr (CHR 0x54) = CHR 0x74"
  "lower_chr (CHR 0x55) = CHR 0x75"
  "lower_chr (CHR 0x56) = CHR 0x76"
  "lower_chr (CHR 0x57) = CHR 0x77"
  "lower_chr (CHR 0x58) = CHR 0x78"
  "lower_chr (CHR 0x59) = CHR 0x79"
  "lower_chr (CHR 0x5A) = CHR 0x7A"
  "lower_chr (CHR 0x5B) = CHR 0x5B"
  "lower_chr (CHR 0x5C) = CHR 0x5C"
  "lower_chr (CHR 0x5D) = CHR 0x5D"
  "lower_chr (CHR 0x5E) = CHR 0x5E"
  "lower_chr (CHR 0x5F) = CHR 0x5F"
  "lower_chr (CHR 0x60) = CHR 0x60"
  "lower_chr (CHR 0x61) = CHR 0x61"
  "lower_chr (CHR 0x62) = CHR 0x62"
  "lower_chr (CHR 0x63) = CHR 0x63"
  "lower_chr (CHR 0x64) = CHR 0x64"
  "lower_chr (CHR 0x65) = CHR 0x65"
  "lower_chr (CHR 0x66) = CHR 0x66"
  "lower_chr (CHR 0x67) = CHR 0x67"
  "lower_chr (CHR 0x68) = CHR 0x68"
  "lower_chr (CHR 0x69) = CHR 0x69"
  "lower_chr (CHR 0x6A) = CHR 0x6A"
  "lower_chr (CHR 0x6B) = CHR 0x6B"
  "lower_chr (CHR 0x6C) = CHR 0x6C"
  "lower_chr (CHR 0x6D) = CHR 0x6D"
  "lower_chr (CHR 0x6E) = CHR 0x6E"
  "lower_chr (CHR 0x6F) = CHR 0x6F"
  "lower_chr (CHR 0x70) = CHR 0x70"
  "lower_chr (CHR 0x71) = CHR 0x71"
  "lower_chr (CHR 0x72) = CHR 0x72"
  "lower_chr (CHR 0x73) = CHR 0x73"
  "lower_chr (CHR 0x74) = CHR 0x74"
  "lower_chr (CHR 0x75) = CHR 0x75"
  "lower_chr (CHR 0x76) = CHR 0x76"
  "lower_chr (CHR 0x77) = CHR 0x77"
  "lower_chr (CHR 0x78) = CHR 0x78"
  "lower_chr (CHR 0x79) = CHR 0x79"
  "lower_chr (CHR 0x7A) = CHR 0x7A"
  "lower_chr (CHR 0x7B) = CHR 0x7B"
  "lower_chr (CHR 0x7C) = CHR 0x7C"
  "lower_chr (CHR 0x7D) = CHR 0x7D"
  "lower_chr (CHR 0x7E) = CHR 0x7E"
  by (simp_all add: lower_chr_def is_upper_def char_of_eq_iff)

section \<open>Facts about the matcher\<close>

lemma star_greedy_ne: "star_greedy P k s \<noteq> []"
  by (cases s) auto

lemma self_in_star_greedy: "(k, s) \<in> set (star_greedy P k s)"
  by (cases s) auto

lemma in_map_state:
  "(k', s', g') \<in> set (map (\<lambda>(k', s'). (k', s', g)) xs) \<longleftrightarrow> (k', s') \<in> set xs \<and> g' = g"
  by (induction xs) auto

lemma in_map_grp:
  "(k', s', g') \<in> set (map (\<lambda>(k', s', g'). (k', s', g'(n \<mapsto> take (k' - k) s))) xs) \<longleftrightarrow>
     (\<exists>g''. (k', s', g'') \<in> set xs \<and> g' = g''(n \<mapsto> take (k' - k) s))"
  by (induction xs) auto

lemma hd_star_greedy:
  "hd (star_greedy P k s) = (k + length (takeWhile P s), dropWhile P s)"
  by (induction s arbitrary: k) (auto simp: star_greedy_ne)

lemma in_star_greedy:
  "(k', s') \<in> set (star_greedy P k (s :: 'c list)) \<longleftrightarrow>
     (\<exists>w. s = w @ s' \<and> list_all P w \<and> k' = k + length w)"
proof (induction s arbitrary: k)
  case Nil
  show ?case by auto
next
  case (Cons c cs)
  show ?case
  proof
    assume "(k', s') \<in> set (star_greedy P k (c # cs))"
    then consider "P c" "(k', s') \<in> set (star_greedy P (Suc k) cs)" | "k' = k" "s' = c # cs"
      by (auto split: if_splits)
    then show "\<exists>w. c # cs = w @ s' \<and> list_all P w \<and> k' = k + length w"
    proof cases
      case 1
      with Cons.IH[of "Suc k"] obtain w where "cs = w @ s'" "list_all P w" "k' = Suc k + length w"
        by blast
      with 1 have "c # cs = (c # w) @ s' \<and> list_all P (c # w) \<and> k' = k + length (c # w)" by simp
      then show ?thesis by blast
    next
      case 2
      then have "c # cs = [] @ s' \<and> list_all P [] \<and> k' = k + length ([]::'c list)" by simp
      then show ?thesis by blast
    qed
  next
    assume "\<exists>w. c # cs = w @ s' \<and> list_all P w \<and> k' = k + length w"
    then obtain w where w: "c # cs = w @ s'" "list_all P w" "k' = k + length w" by blast
    show "(k', s') \<in> set (star_greedy P k (c # cs))"
    proof (cases w)
      case Nil
      with w show ?thesis using self_in_star_greedy[of k "c # cs" P] by simp
    next
      case (Cons d w')
      with w have "d = c" "cs = w' @ s'" "P c" "list_all P w'" "k' = Suc k + length w'" by auto
      with Cons.IH[of "Suc k"] show ?thesis by auto
    qed
  qed
qed

lemma set_star_lazy: "set (star_lazy P k s) = set (star_greedy P k s)"
  by (induction s arbitrary: k) auto

lemma in_star_lazy:
  "(k', s') \<in> set (star_lazy P k s) \<longleftrightarrow>
     (\<exists>w. s = w @ s' \<and> list_all P w \<and> k' = k + length w)"
  by (simp only: set_star_lazy in_star_greedy)

lemma lit_match_length: "lit_match ps s \<Longrightarrow> length ps \<le> length s"
  by (induction ps s rule: lit_match.induct) auto

lemma lit_match_plain: "lit_match (map (\<lambda>p c. c = p) w) s \<longleftrightarrow> prefix w s"
proof (induction w arbitrary: s)
  case Nil
  show ?case by simp
next
  case (Cons p w)
  then show ?case by (cases s) auto
qed

lemma in_ms_Lit:
  "(k', s', g') \<in> set (ms (Lit ps) (k, s, g)) \<longleftrightarrow>
     lit_match ps s \<and> k' = k + length ps \<and> s' = drop (length ps) s \<and> g' = g"
  by auto

lemma in_ms_lit:
  "(k', s', g') \<in> set (ms (lit w) (k, s, g)) \<longleftrightarrow>
     prefix w s \<and> k' = k + length w \<and> s' = drop (length w) s \<and> g' = g"
  unfolding lit_def in_ms_Lit lit_match_plain by simp

lemma in_ms_Cls:
  "(k', s', g') \<in> set (ms (Cls P) (k, s, g)) \<longleftrightarrow>
     (\<exists>c. s = c # s' \<and> P c \<and> k' = Suc k \<and> g' = g)"
  by (auto split: list.splits)

lemma in_ms_Star:
  "(k', s', g') \<in> set (ms (Star P) (k, s, g)) \<longleftrightarrow>
     (\<exists>w. s = w @ s' \<and> list_all P w \<and> k' = k + length w \<and> g' = g)"
  unfolding ms.simps in_map_state in_star_greedy by blast

lemma in_ms_Lazy:
  "(k', s', g') \<in> set (ms (Lazy P) (k, s, g)) \<longleftrightarrow>
     (\<exists>w. s = w @ s' \<and> list_all P w \<and> k' = k + length w \<and> g' = g)"
  unfolding ms.simps in_map_state in_star_lazy by blast

lemma in_ms_Plus:
  "(k', s', g') \<in> set (ms (Plus P) (k, s, g)) \<longleftrightarrow>
     (\<exists>w. w \<noteq> [] \<and> s = w @ s' \<and> list_all P w \<and> k' = k + length w \<and> g' = g)"
proof (cases s)
  case Nil
  then show ?thesis by auto
next
  case (Cons c cs)
  show ?thesis
  proof
    assume "(k', s', g') \<in> set (ms (Plus P) (k, s, g))"
    then have "P c \<and> (k', s', g') \<in> set (map (\<lambda>(k', s'). (k', s', g)) (star_greedy P (Suc k) cs))"
      using Cons by (simp split: if_splits)
    then have "P c" "(k', s') \<in> set (star_greedy P (Suc k) cs)" "g' = g"
      by (simp_all only: in_map_state)
    then obtain w where "cs = w @ s'" "list_all P w" "k' = Suc k + length w"
      using in_star_greedy[of k' s' P "Suc k" cs] by blast
    with \<open>P c\<close> \<open>g' = g\<close> Cons
    have "c # w \<noteq> [] \<and> s = (c # w) @ s' \<and> list_all P (c # w) \<and> k' = k + length (c # w) \<and> g' = g"
      by simp
    then show "\<exists>w. w \<noteq> [] \<and> s = w @ s' \<and> list_all P w \<and> k' = k + length w \<and> g' = g"
      by blast
  next
    assume "\<exists>w. w \<noteq> [] \<and> s = w @ s' \<and> list_all P w \<and> k' = k + length w \<and> g' = g"
    then obtain w where w: "w \<noteq> []" "s = w @ s'" "list_all P w" "k' = k + length w" "g' = g"
      by blast
    then obtain d w' where dw: "w = d # w'" by (cases w) auto
    with w Cons have "d = c" "cs = w' @ s'" "P c" "list_all P w'" "k' = Suc k + length w'" by auto
    then have "(k', s') \<in> set (star_greedy P (Suc k) cs)"
      using in_star_greedy[of k' s' P "Suc k" cs] by blast
    then have "(k', s', g') \<in> set (map (\<lambda>(k', s'). (k', s', g)) (star_greedy P (Suc k) cs))"
      using \<open>g' = g\<close> by (simp only: in_map_state)
    with \<open>P c\<close> Cons show "(k', s', g') \<in> set (ms (Plus P) (k, s, g))"
      by simp
  qed
qed

lemma in_ms_Seq:
  "x \<in> set (ms (Seq a b) st) \<longleftrightarrow> (\<exists>m \<in> set (ms a st). x \<in> set (ms b m))"
  by auto

lemma ms_SeqE:
  assumes "(k', s', g') \<in> set (ms (Seq a b) (k, s, g))"
  obtains k1 s1 g1 where "(k1, s1, g1) \<in> set (ms a (k, s, g))"
    and "(k', s', g') \<in> set (ms b (k1, s1, g1))"
  using assms by (auto simp only: in_ms_Seq)

lemma in_ms_Alt:
  "x \<in> set (ms (Alt a b) st) \<longleftrightarrow> x \<in> set (ms a st) \<or> x \<in> set (ms b st)"
  by auto

lemma in_ms_Grp:
  "(k', s', g') \<in> set (ms (Grp n a) (k, s, g)) \<longleftrightarrow>
     (\<exists>g''. (k', s', g'') \<in> set (ms a (k, s, g)) \<and> g' = g''(n \<mapsto> take (k' - k) s))"
  unfolding ms.simps in_map_grp by blast

lemma in_ms_Look:
  "(k', s', g') \<in> set (ms (Look a) (k, s, g)) \<Longrightarrow>
     k' = k \<and> s' = s \<and> (\<exists>k1 s1. (k1, s1, g') \<in> set (ms a (k, s, g)))"
  by (auto split: list.splits) (metis list.set_intros(1))

lemma in_ms_Eos:
  "(k', s', g') \<in> set (ms (Eos nl) (k, s, g)) \<longleftrightarrow>
     (s = [] \<or> s = [nl]) \<and> k' = k \<and> s' = s \<and> g' = g"
  by auto

lemma in_ms_Bos:
  "(k', s', g') \<in> set (ms Bos (k, s, g)) \<longleftrightarrow> k = 0 \<and> k' = k \<and> s' = s \<and> g' = g"
  by auto

lemma ms_suffix:
  "(k', s', g') \<in> set (ms r (k, (s :: 'c list), g)) \<Longrightarrow> \<exists>w. s = w @ s' \<and> k' = k + length w"
proof (induction r arbitrary: k s g k' s' g')
  case (Lit ps)
  then have "lit_match ps s" "k' = k + length ps" "s' = drop (length ps) s"
    by (auto simp only: in_ms_Lit)
  then have "s = take (length ps) s @ s' \<and> k' = k + length (take (length ps) s)"
    using lit_match_length[of ps s] by simp
  then show ?case by blast
next
  case (Cls P)
  then obtain c where "s = c # s'" "k' = Suc k" by (auto simp only: in_ms_Cls)
  then have "s = [c] @ s' \<and> k' = k + length [c]" by simp
  then show ?case by blast
next
  case (Star P)
  then show ?case by (auto simp only: in_ms_Star)
next
  case (Plus P)
  then show ?case by (auto simp only: in_ms_Plus)
next
  case (Lazy P)
  then show ?case by (auto simp only: in_ms_Lazy)
next
  case (Seq a b)
  from Seq.prems obtain k1 s1 g1
    where 1: "(k1, s1, g1) \<in> set (ms a (k, s, g))" and 2: "(k', s', g') \<in> set (ms b (k1, s1, g1))"
    by (auto simp only: in_ms_Seq)
  from Seq.IH(1)[OF 1] obtain w1 where "s = w1 @ s1" "k1 = k + length w1" by blast
  moreover from Seq.IH(2)[OF 2] obtain w2 where "s1 = w2 @ s'" "k' = k1 + length w2" by blast
  ultimately have "s = (w1 @ w2) @ s' \<and> k' = k + length (w1 @ w2)" by simp
  then show ?case by blast
next
  case (Alt a b)
  from Alt.prems have "(k', s', g') \<in> set (ms a (k, s, g)) \<or> (k', s', g') \<in> set (ms b (k, s, g))"
    by simp
  then show ?case using Alt.IH by blast
next
  case (Grp n a)
  from Grp.prems obtain g'' where "(k', s', g'') \<in> set (ms a (k, s, g))"
    by (auto simp only: in_ms_Grp)
  with Grp.IH show ?case by blast
next
  case (Look a)
  from in_ms_Look[OF Look.prems] have "s = [] @ s' \<and> k' = k + length ([]::'c list)" by simp
  then show ?case by blast
next
  case Bos
  then have "s = [] @ s' \<and> k' = k + length ([]::'c list)" by (auto split: if_splits)
  then show ?case by blast
next
  case (Eos nl)
  then have "s = [] @ s' \<and> k' = k + length ([]::'c list)" by (auto split: if_splits)
  then show ?case by blast
qed

lemma ms_keep:
  "(k', s', g') \<in> set (ms r (k, s, g)) \<Longrightarrow> n \<notin> grps r \<Longrightarrow> g' n = g n"
proof (induction r arbitrary: k s g k' s' g')
  case (Seq a b)
  from Seq.prems obtain k1 s1 g1
    where 1: "(k1, s1, g1) \<in> set (ms a (k, s, g))" and 2: "(k', s', g') \<in> set (ms b (k1, s1, g1))"
    by (auto simp only: in_ms_Seq)
  from Seq.IH(1)[OF 1] Seq.IH(2)[OF 2] Seq.prems(2) show ?case by simp
next
  case (Alt a b)
  from Alt.prems(1) have "(k', s', g') \<in> set (ms a (k, s, g)) \<or> (k', s', g') \<in> set (ms b (k, s, g))"
    by simp
  moreover from Alt.prems(2) have "n \<notin> grps a" "n \<notin> grps b" by simp_all
  ultimately show ?case using Alt.IH by blast
next
  case (Grp m a)
  from Grp.prems(1) obtain g'' where "(k', s', g'') \<in> set (ms a (k, s, g))"
    "g' = g''(m \<mapsto> take (k' - k) s)" by (auto simp only: in_ms_Grp)
  with Grp.IH[of k' s' g'' k s g] Grp.prems(2) show ?case by auto
next
  case (Look a)
  from in_ms_Look[OF Look.prems(1)] Look.IH Look.prems(2) show ?case by auto
qed (auto split: if_splits list.splits)

lemma ms_mono:
  "(k', s', g') \<in> set (ms r (k, s, g)) \<Longrightarrow> g n \<noteq> None \<Longrightarrow> g' n \<noteq> None"
proof (induction r arbitrary: k s g k' s' g')
  case (Seq a b)
  from Seq.prems obtain k1 s1 g1
    where 1: "(k1, s1, g1) \<in> set (ms a (k, s, g))" and 2: "(k', s', g') \<in> set (ms b (k1, s1, g1))"
    by (auto simp only: in_ms_Seq)
  from Seq.IH(1)[OF 1 Seq.prems(2)] Seq.IH(2)[OF 2] show ?case by simp
next
  case (Alt a b)
  from Alt.prems(1) have "(k', s', g') \<in> set (ms a (k, s, g)) \<or> (k', s', g') \<in> set (ms b (k, s, g))"
    by simp
  then show ?case using Alt.IH Alt.prems(2) by blast
next
  case (Grp m a)
  from Grp.prems(1) obtain g'' where "(k', s', g'') \<in> set (ms a (k, s, g))"
    "g' = g''(m \<mapsto> take (k' - k) s)" by (auto simp only: in_ms_Grp)
  with Grp.IH[of k' s' g'' k s g] Grp.prems(2) show ?case by auto
next
  case (Look a)
  from in_ms_Look[OF Look.prems(1)] Look.IH Look.prems(2) show ?case by blast
qed (auto split: if_splits list.splits)

lemma ms_sets:
  "(k', s', g') \<in> set (ms r (k, s, g)) \<Longrightarrow> sets_grp n r \<Longrightarrow> g' n \<noteq> None"
proof (induction r arbitrary: k s g k' s' g')
  case (Seq a b)
  from Seq.prems obtain k1 s1 g1
    where 1: "(k1, s1, g1) \<in> set (ms a (k, s, g))" and 2: "(k', s', g') \<in> set (ms b (k1, s1, g1))"
    by (auto simp only: in_ms_Seq)
  show ?case
  proof (cases "sets_grp n b")
    case True
    from Seq.IH(2)[OF 2 True] show ?thesis .
  next
    case False
    with Seq.prems(2) have "sets_grp n a" by simp
    from Seq.IH(1)[OF 1 this] ms_mono[OF 2] show ?thesis by blast
  qed
next
  case (Alt a b)
  from Alt.prems(1) have "(k', s', g') \<in> set (ms a (k, s, g)) \<or> (k', s', g') \<in> set (ms b (k, s, g))"
    by simp
  moreover from Alt.prems(2) have "sets_grp n a" "sets_grp n b" by simp_all
  ultimately show ?case using Alt.IH by blast
next
  case (Grp m a)
  from Grp.prems(1) obtain g'' where "(k', s', g'') \<in> set (ms a (k, s, g))"
    "g' = g''(m \<mapsto> take (k' - k) s)" by (auto simp only: in_ms_Grp)
  with Grp.IH[of k' s' g'' k s g] Grp.prems(2) show ?case by auto
next
  case (Look a)
  from in_ms_Look[OF Look.prems(1)] Look.IH Look.prems(2) show ?case by auto
qed auto

lemma search_from_in:
  "search_from r k (s :: 'c list) = Some m \<Longrightarrow>
     \<exists>pre t. s = pre @ t \<and> m \<in> set (ms r (k + length pre, t, Map.empty))"
proof (induction s arbitrary: k)
  case Nil
  then have "[] = [] @ ([]::'c list) \<and> m \<in> set (ms r (k + length ([]::'c list), [], Map.empty))"
    by (auto split: list.splits)
  then show ?case by blast
next
  case (Cons c cs)
  show ?case
  proof (cases "ms r (k, c # cs, Map.empty)")
    case Nil
    with Cons.prems have "search_from r (Suc k) cs = Some m" by simp
    from Cons.IH[OF this] obtain pre t
      where "cs = pre @ t" "m \<in> set (ms r (Suc k + length pre, t, Map.empty))" by blast
    then have "c # cs = (c # pre) @ t \<and> m \<in> set (ms r (k + length (c # pre), t, Map.empty))"
      by simp
    then show ?thesis by blast
  next
    case (Cons m' rest)
    with Cons.prems have "m = m'" by simp
    with Cons have "c # cs = [] @ (c # cs) \<and> m \<in> set (ms r (k + length ([]::'c list), c # cs, Map.empty))"
      by simp
    then show ?thesis by blast
  qed
qed

lemma dropWhile_all: "list_all P w \<Longrightarrow> (s = [] \<or> \<not> P (hd s)) \<Longrightarrow> dropWhile P (w @ s) = s"
proof (induction w)
  case Nil
  then show ?case by (cases s) auto
next
  case (Cons c w)
  then show ?case by simp
qed

section \<open>Incident keys\<close>

lemma col_True: "col P repl True s = col P repl False (dropWhile P s)"
  by (induction s) auto

lemma ms_Plus_Nil: "ms (Plus P) (k, [], g) = []"
  by simp

lemma ms_Plus_no: "\<not> P c \<Longrightarrow> ms (Plus P) (k, c # cs, g) = []"
  by simp

lemma ms_Plus_first:
  "P c \<Longrightarrow> \<exists>rest. ms (Plus P) (k, c # cs, g) =
      (Suc k + length (takeWhile P cs), dropWhile P cs, g) # rest"
proof -
  assume "P c"
  obtain x xs where x: "star_greedy P (Suc k) cs = x # xs"
    using star_greedy_ne[of P "Suc k" cs] by (cases "star_greedy P (Suc k) cs") auto
  with hd_star_greedy[of P "Suc k" cs] have "x = (Suc k + length (takeWhile P cs), dropWhile P cs)"
    by simp
  with x \<open>P c\<close> show ?thesis by simp
qed

lemma re_sub_Plus: "re_sub (Plus P) repl k s = col P repl False s"
proof (induction s arbitrary: k rule: length_induct)
  case (1 s)
  show ?case
  proof (cases s)
    case Nil
    then show ?thesis by (subst re_sub.simps) simp
  next
    case (Cons c cs)
    show ?thesis
    proof (cases "P c")
      case False
      have "re_sub (Plus P) repl k (c # cs) = c # re_sub (Plus P) repl (Suc k) cs"
        using False by (subst re_sub.simps) simp
      also have "re_sub (Plus P) repl (Suc k) cs = col P repl False cs"
        using 1 Cons by simp
      finally show ?thesis using False Cons by simp
    next
      case True
      from ms_Plus_first[of P c k cs Map.empty] True obtain rest where
        m: "ms (Plus P) (k, c # cs, Map.empty) =
            (Suc k + length (takeWhile P cs), dropWhile P cs, Map.empty) # rest" by blast
      have len: "length (dropWhile P cs) < length (c # cs)"
        using length_dropWhile_le[of P cs] by simp
      have "re_sub (Plus P) repl k (c # cs) =
          repl @ re_sub (Plus P) repl (Suc k + length (takeWhile P cs)) (dropWhile P cs)"
        by (subst re_sub.simps) (simp only: m list.case prod.case len if_True)
      also have "re_sub (Plus P) repl (Suc k + length (takeWhile P cs)) (dropWhile P cs)
          = col P repl False (dropWhile P cs)"
        using 1 Cons len by simp
      finally show ?thesis using True Cons by (simp add: col_True)
    qed
  qed
qed

lemma strip_rstrip: "strip s = rstrip (dropWhile is_space s)"
  by (simp add: strip_def rstrip_def)

lemma rstrip_Nil [simp]: "rstrip [] = []"
  by (simp add: rstrip_def)

lemma rstrip_Cons:
  "rstrip (c # s) = (if is_space c \<and> rstrip s = [] then [] else c # rstrip s)"
proof (cases "\<forall>x\<in>set (rev s). is_space x")
  case True
  then have A: "dropWhile is_space (rev s @ [c]) = dropWhile is_space [c]"
    by (simp only: dropWhile_append2)
  from True have B: "dropWhile is_space (rev s) = []"
    by (simp only: dropWhile_eq_Nil_conv)
  have "rstrip (c # s) = rev (dropWhile is_space [c])"
    by (simp only: rstrip_def rev.simps A)
  moreover have "rstrip s = []" by (simp only: rstrip_def B rev.simps)
  ultimately show ?thesis by simp
next
  case False
  then obtain x where x: "x \<in> set (rev s)" "\<not> is_space x" by blast
  then have A: "dropWhile is_space (rev s @ [c]) = dropWhile is_space (rev s) @ [c]"
    by (rule dropWhile_append1)
  from False have B: "dropWhile is_space (rev s) \<noteq> []"
    by (simp only: dropWhile_eq_Nil_conv) simp
  have "rstrip (c # s) = rev (dropWhile is_space (rev s) @ [c])"
    by (simp only: rstrip_def rev.simps A)
  moreover have "rstrip s \<noteq> []" using B by (simp add: rstrip_def)
  ultimately show ?thesis by (simp add: rstrip_def)
qed

lemma rstrip_append_cong: "rstrip x = rstrip y \<Longrightarrow> rstrip (p @ x) = rstrip (p @ y)"
  by (induction p) (simp_all add: rstrip_Cons)

lemma rstrip_lstrip: "rstrip (dropWhile is_space s) = dropWhile is_space (rstrip s)"
  by (induction s) (auto simp: rstrip_Cons)

lemma col_pass: "list_all (\<lambda>c. \<not> P c) a \<Longrightarrow> col P r False (a @ s) = a @ col P r False s"
  by (induction a) auto

lemma col_pass_all: "list_all (\<lambda>c. \<not> P c) b \<Longrightarrow> col P r f b = b"
  by (induction b arbitrary: f) auto

lemma col_pass_right: "list_all (\<lambda>c. \<not> P c) b \<Longrightarrow> col P r f (s @ b) = col P r f s @ b"
  by (induction s arbitrary: f) (auto simp: col_pass_all)

lemma lower_fix: "list_all is_space a \<Longrightarrow> lower a = a"
  by (induction a) (auto simp: lower_def lower_space)

lemma space_no_decimal: "list_all is_space a \<Longrightarrow> list_all (\<lambda>c. \<not> is_decimal c) a"
  by (induction a) (auto simp: space_not_decimal)

lemma col_space_run: "list_all is_space a \<Longrightarrow> col is_space r True (a @ y) = col is_space r True y"
  by (induction a) auto

lemma col_space_all: "list_all is_space b \<Longrightarrow> rstrip (col is_space '' '' f b) = []"
proof (cases b)
  case Nil
  then show ?thesis by simp
next
  case (Cons c cs)
  assume "list_all is_space b"
  with Cons have c: "is_space c" "list_all is_space cs" by simp_all
  have "col is_space '' '' True (cs @ []) = col is_space '' '' True []"
    using c(2) by (rule col_space_run)
  then have "col is_space '' '' True cs = []" by simp
  with Cons c(1) show ?thesis by (simp add: rstrip_Cons space_tab)
qed

lemma rstrip_col_right:
  "list_all is_space b \<Longrightarrow> rstrip (col is_space '' '' f (y @ b)) = rstrip (col is_space '' '' f y)"
proof (induction y arbitrary: f)
  case Nil
  then show ?case by (simp add: col_space_all)
next
  case (Cons c y)
  have t: "rstrip (col is_space '' '' True (y @ b)) = rstrip (col is_space '' '' True y)"
    and f: "rstrip (col is_space '' '' False (y @ b)) = rstrip (col is_space '' '' False y)"
    using Cons by simp_all
  show ?case
    using t f rstrip_append_cong[OF t, of "'' ''"] rstrip_append_cong[OF f, of "[c]"]
    by simp
qed

lemma lstrip_col:
  "dropWhile is_space (col is_space '' '' False y) = col is_space '' '' False (dropWhile is_space y)"
proof (induction y)
  case Nil
  show ?case by simp
next
  case (Cons c y)
  show ?case
  proof (cases "is_space c")
    case True
    have "dropWhile is_space (col is_space '' '' False (c # y))
        = dropWhile is_space (col is_space '' '' True y)"
      using True by (simp add: space_tab)
    also have "\<dots> = dropWhile is_space (col is_space '' '' False (dropWhile is_space y))"
      by (simp only: col_True)
    also have "\<dots> = col is_space '' '' False (dropWhile is_space y)"
    proof -
      obtain z where z: "dropWhile is_space y = z" by simp
      have "dropWhile is_space (col is_space '' '' False z) = col is_space '' '' False z"
      proof (cases z)
        case Nil
        then show ?thesis by simp
      next
        case (Cons d z')
        then have "\<not> is_space d" using hd_dropWhile[of is_space y] z by auto
        with Cons show ?thesis by simp
      qed
      with z show ?thesis by simp
    qed
    finally show ?thesis using True by simp
  next
    case False
    then show ?thesis by simp
  qed
qed

lemma strip_col_affix:
  assumes "list_all is_space a" "list_all is_space b"
  shows "strip (col is_space '' '' False (a @ y @ b)) = strip (col is_space '' '' False y)"
proof -
  have a: "dropWhile is_space (a @ y @ b) = dropWhile is_space (y @ b)"
    using assms(1) by (induction a) auto
  have "strip (col is_space '' '' False (a @ y @ b))
      = rstrip (col is_space '' '' False (dropWhile is_space (a @ y @ b)))"
    by (simp only: strip_rstrip lstrip_col)
  also have "\<dots> = rstrip (dropWhile is_space (col is_space '' '' False (y @ b)))"
    by (simp only: a lstrip_col)
  also have "\<dots> = dropWhile is_space (rstrip (col is_space '' '' False (y @ b)))"
    by (rule rstrip_lstrip)
  also have "\<dots> = dropWhile is_space (rstrip (col is_space '' '' False y))"
    by (simp only: rstrip_col_right[OF assms(2)])
  also have "\<dots> = strip (col is_space '' '' False y)"
    by (simp only: strip_rstrip rstrip_lstrip)
  finally show ?thesis .
qed



lemma derive_incident_key_col:
  "derive_incident_key e = service e @ ''::'' @ strip (normalize (message e))"
  by (simp only: derive_incident_key_def normalize_def re_sub_Plus Let_def)

lemma derive_incident_key_sep: "sublist ''::'' (derive_incident_key e)"
  unfolding derive_incident_key_col sublist_def by blast

lemma normalize_affix:
  assumes "list_all is_space a" "list_all is_space b"
  shows "strip (normalize (a @ u @ b)) = strip (normalize u)"
proof -
  have "lower (a @ u @ b) = a @ lower u @ b"
    using lower_fix[OF assms(1)] lower_fix[OF assms(2)] by (simp add: lower_def)
  moreover have "col is_decimal ''<NUM>'' False (a @ lower u @ b)
      = a @ col is_decimal ''<NUM>'' False (lower u) @ b"
    using col_pass[OF space_no_decimal[OF assms(1)]] col_pass_right[OF space_no_decimal[OF assms(2)]]
    by simp
  ultimately show ?thesis
    unfolding normalize_def using strip_col_affix[OF assms] by simp
qed

lemma strip_decomp:
  "\<exists>a b. m = a @ strip m @ b \<and> list_all is_space a \<and> list_all is_space b"
proof -
  let ?l = "dropWhile is_space m"
  have 1: "m = takeWhile is_space m @ ?l" by simp
  have 2: "?l = strip m @ rev (takeWhile is_space (rev ?l))"
    unfolding strip_def by (metis rev_append rev_rev_ident takeWhile_dropWhile_id)
  have 3: "list_all is_space (takeWhile is_space m)"
    "list_all is_space (rev (takeWhile is_space (rev ?l)))"
    by (auto simp: list_all_iff dest: set_takeWhileD)
  from 1 2 have "m = takeWhile is_space m @ strip m @ rev (takeWhile is_space (rev ?l))"
    by simp
  with 3 show ?thesis by blast
qed

lemma normalize_strip: "strip (normalize (strip m)) = strip (normalize m)"
proof -
  from strip_decomp[of m] obtain a b where
    "m = a @ strip m @ b" "list_all is_space a" "list_all is_space b" by blast
  with normalize_affix[of a b "strip m"] show ?thesis by simp
qed

lemma dropWhile_lower_decimal:
  "dropWhile is_decimal (lower u) = lower (dropWhile is_decimal u)"
  by (induction u) (auto simp: lower_def)

lemma dropWhile_lower_space:
  "dropWhile is_space (lower u) = lower (dropWhile is_space u)"
  by (induction u) (auto simp: lower_def)

lemma dropWhile_space_col_decimal:
  "dropWhile is_space (col is_decimal ''<NUM>'' False x)
     = col is_decimal ''<NUM>'' False (dropWhile is_space x)"
  by (induction x) (auto simp: space_not_decimal space_tab)

lemma normalize_digit:
  "is_decimal a \<Longrightarrow> normalize (a # u) = ''<NUM>'' @ normalize (dropWhile is_decimal u)"
  by (simp add: normalize_def lower_def lower_decimal col_True space_tab
      dropWhile_lower_decimal[unfolded lower_def])

lemma normalize_space:
  "is_space a \<Longrightarrow> normalize (a # u) = '' '' @ normalize (dropWhile is_space u)"
  by (simp add: normalize_def lower_def lower_space space_not_decimal col_True
      dropWhile_space_col_decimal dropWhile_lower_space[unfolded lower_def])

lemma normalize_other:
  "\<not> is_decimal a \<Longrightarrow> \<not> is_space a \<Longrightarrow> normalize (a # u) = lower_chr a # normalize u"
  by (simp add: normalize_def lower_def)

lemma same_runs_normalize: "same_runs u v \<Longrightarrow> normalize u = normalize v"
proof (induction u v rule: same_runs.induct)
  case 1
  show ?case by simp
next
  case (2 a u)
  then show ?case by simp
next
  case (3 b v)
  then show ?case by simp
next
  case (4 a u b v)
  show ?case
  proof (cases "is_decimal a \<and> is_decimal b")
    case True
    with 4 show ?thesis by (simp add: normalize_digit)
  next
    case nd: False
    show ?thesis
    proof (cases "is_space a \<and> is_space b")
      case True
      with 4 nd show ?thesis by (simp add: normalize_space)
    next
      case False
      with 4 nd show ?thesis by (simp add: normalize_other)
    qed
  qed
qed

text \<open>
  Claim C1. Two records with the same service whose messages, whitespace at both ends
  set aside, are the same but for their runs of decimal digits (in the same places)
  and their runs of whitespace have the same incident key.
\<close>

theorem derive_incident_key_same_runs:
  assumes "service e1 = service e2"
    and "same_runs (strip (message e1)) (strip (message e2))"
  shows "derive_incident_key e1 = derive_incident_key e2"
proof -
  have "strip (normalize (message e1)) = strip (normalize (strip (message e1)))"
    by (simp only: normalize_strip)
  also have "\<dots> = strip (normalize (strip (message e2)))"
    using same_runs_normalize[OF assms(2)] by simp
  also have "\<dots> = strip (normalize (message e2))"
    by (simp only: normalize_strip)
  finally show ?thesis using assms(1) by (simp add: derive_incident_key_col)
qed

text \<open>Two messages with different numbers, different spacing and different ends.\<close>

theorem derive_incident_key_same_runs_witness:
  "same_runs (strip ''  timed out after 30 s '') (strip ''timed  out after 4500 s'')
   \<and> derive_incident_key
       \<lparr>timestamp = ''t1'', service = ''orders'', level = ''ERROR'',
          message = ''  timed out after 30 s ''\<rparr>
     = derive_incident_key
       \<lparr>timestamp = ''t2'', service = ''orders'', level = ''WARN'',
          message = ''timed  out after 4500 s''\<rparr>"
proof -
  have h: "same_runs (strip ''  timed out after 30 s '') (strip ''timed  out after 4500 s'')"
    by (simp add: strip_def space_tab decimal_tab)
  show ?thesis
    using h derive_incident_key_same_runs[of
        "\<lparr>timestamp = ''t1'', service = ''orders'', level = ''ERROR'',
          message = ''  timed out after 30 s ''\<rparr>"
        "\<lparr>timestamp = ''t2'', service = ''orders'', level = ''WARN'',
          message = ''timed  out after 4500 s''\<rparr>"]
    by simp
qed

text \<open>
  Claim C10. The service part of a key is not case-folded: two retained records with
  the same message and different service names have different keys, whatever the
  difference, and \<open>group_incidents\<close> puts them in two groups. The service names \<open>Orders\<close>
  and \<open>orders\<close> differ in letter case only.
\<close>

theorem service_case_separates_incidents:
  assumes "message e1 = message e2" and "service e1 \<noteq> service e2"
    and "actionable e1" and "actionable e2"
  shows "derive_incident_key e1 \<noteq> derive_incident_key e2
     \<and> group_incidents [e1, e2] =
         [(derive_incident_key e1, [e1]), (derive_incident_key e2, [e2])]"
proof -
  have ne: "derive_incident_key e1 \<noteq> derive_incident_key e2"
    using assms(1,2) by (simp add: derive_incident_key_col)
  then show ?thesis
    using assms(3,4) by (simp add: group_incidents_def group_step_def actionable_def)
qed

theorem service_case_separates_incidents_witness:
  "lower ''Orders'' = lower ''orders'' \<and> ''Orders'' \<noteq> ''orders''
   \<and> derive_incident_key
       \<lparr>timestamp = ''t1'', service = ''Orders'', level = ''ERROR'', message = ''timeout''\<rparr>
     \<noteq> derive_incident_key
       \<lparr>timestamp = ''t2'', service = ''orders'', level = ''ERROR'', message = ''timeout''\<rparr>
   \<and> length (group_incidents
       [\<lparr>timestamp = ''t1'', service = ''Orders'', level = ''ERROR'', message = ''timeout''\<rparr>,
        \<lparr>timestamp = ''t2'', service = ''orders'', level = ''ERROR'', message = ''timeout''\<rparr>]) = 2"
proof -
  have "lower ''Orders'' = lower ''orders''"
    by (simp add: lower_def lower_tab)
  then show ?thesis
    using service_case_separates_incidents[of
        "\<lparr>timestamp = ''t1'', service = ''Orders'', level = ''ERROR'', message = ''timeout''\<rparr>"
        "\<lparr>timestamp = ''t2'', service = ''orders'', level = ''ERROR'', message = ''timeout''\<rparr>"]
    by (simp add: actionable_def)
qed

section \<open>Runbook retrieval\<close>

lemma py_in_iff_sublist: "py_in k s \<longleftrightarrow> sublist k s"
  by (induction s) (auto simp: sublist_Cons_right)

lemma scan_kb_none:
  "\<forall>i<length kb. \<not> sublist (fst (kb ! i)) p \<Longrightarrow> scan_kb kb p = fallback_runbook"
proof (induction kb)
  case Nil
  then show ?case by simp
next
  case (Cons a kb)
  obtain k r where a: "a = (k, r)" by (cases a)
  from Cons.prems have "\<not> sublist k p" using a by force
  moreover from Cons.prems have "\<forall>i<length kb. \<not> sublist (fst (kb ! i)) p" by force
  ultimately show ?case using Cons.IH a by (simp add: py_in_iff_sublist)
qed

lemma scan_kb_first:
  "i < length kb \<Longrightarrow> sublist (fst (kb ! i)) p \<Longrightarrow> \<forall>j<i. \<not> sublist (fst (kb ! j)) p
   \<Longrightarrow> scan_kb kb p = snd (kb ! i)"
proof (induction kb arbitrary: i)
  case Nil
  then show ?case by simp
next
  case (Cons a kb)
  obtain k r where a: "a = (k, r)" by (cases a)
  show ?case
  proof (cases i)
    case 0
    with Cons.prems a show ?thesis by (simp add: py_in_iff_sublist)
  next
    case (Suc i')
    with Cons.prems have "\<not> sublist k p" using a by force
    moreover have "\<forall>j<i'. \<not> sublist (fst (kb ! j)) p"
      using Cons.prems(3) Suc by force
    moreover have "i' < length kb" "sublist (fst (kb ! i')) p"
      using Cons.prems Suc by auto
    ultimately show ?thesis using Cons.IH[of i'] a Suc by (simp add: py_in_iff_sublist)
  qed
qed

text \<open>
  Claim C5. \<open>retrieve_runbook\<close> returns the runbook of the first keyword, in the order
  the knowledge base declares them, that occurs in the pattern as a substring
  (\<open>sublist\<close>: the pattern is some text, the keyword, some text); when no keyword
  occurs in the pattern it returns the fallback text.
\<close>

theorem retrieve_runbook_first_keyword:
  "(i < length KNOWLEDGE_BASE \<and> sublist (fst (KNOWLEDGE_BASE ! i)) pattern
      \<and> (\<forall>j<i. \<not> sublist (fst (KNOWLEDGE_BASE ! j)) pattern)
    \<longrightarrow> retrieve_runbook pattern = snd (KNOWLEDGE_BASE ! i))
   \<and> ((\<forall>i<length KNOWLEDGE_BASE. \<not> sublist (fst (KNOWLEDGE_BASE ! i)) pattern)
    \<longrightarrow> retrieve_runbook pattern = ''No specific runbook found. Follow general triage SOP.'')"
  using scan_kb_first[of i KNOWLEDGE_BASE pattern] scan_kb_none[of KNOWLEDGE_BASE pattern]
  by (auto simp: retrieve_runbook_def fallback_runbook_def)

text \<open>
  A pattern that holds the fourth keyword and, later, the second one gets the second
  keyword's runbook; a pattern that holds none gets the fallback.
\<close>

theorem retrieve_runbook_first_keyword_witness:
  "retrieve_runbook ''a slow response after payment gateway timeout'' =
     ''RUNBOOK-PAY-99: Verify Stripe API status page. If Stripe is up, check internal NAT gateway latency.''
   \<and> retrieve_runbook ''disk full'' = ''No specific runbook found. Follow general triage SOP.''"
proof -
  let ?p = "''a slow response after payment gateway timeout''"
  have 1: "(1::nat) < length KNOWLEDGE_BASE" by (simp add: KNOWLEDGE_BASE_def)
  have 2: "sublist (fst (KNOWLEDGE_BASE ! 1)) ?p"
    unfolding py_in_iff_sublist[symmetric] KNOWLEDGE_BASE_def by code_simp
  have 3: "\<forall>j<(1::nat). \<not> sublist (fst (KNOWLEDGE_BASE ! j)) ?p"
    unfolding py_in_iff_sublist[symmetric] KNOWLEDGE_BASE_def by simp
  have 4: "\<forall>i<length KNOWLEDGE_BASE. \<not> sublist (fst (KNOWLEDGE_BASE ! i)) ''disk full''"
    unfolding py_in_iff_sublist[symmetric] KNOWLEDGE_BASE_def
    by (simp add: less_Suc_eq all_conj_distrib)
  have 5: "snd (KNOWLEDGE_BASE ! 1) = ''RUNBOOK-PAY-99: Verify Stripe API status page. If Stripe is up, check internal NAT gateway latency.''"
    by (simp add: KNOWLEDGE_BASE_def)
  show ?thesis
    using retrieve_runbook_first_keyword[of 1 ?p] retrieve_runbook_first_keyword[of 0 "''disk full''"] 1 2 3 4 5
    by simp
qed

section \<open>Grouping\<close>

lemma set_first_seen: "set (first_seen xs) = set xs"
  by (induction xs) auto

lemma distinct_first_seen: "distinct (first_seen xs)"
  by (induction xs) (auto simp: distinct_removeAll)

lemma first_seen_snoc:
  "first_seen (xs @ [y]) = (if y \<in> set xs then first_seen xs else first_seen xs @ [y])"
proof (induction xs)
  case Nil
  show ?case by simp
next
  case (Cons x xs)
  show ?case
  proof (cases "y = x")
    case True
    have "removeAll x (first_seen (xs @ [x])) = removeAll x (first_seen xs)"
      using Cons.IH True by (simp add: set_first_seen)
    with True show ?thesis by simp
  next
    case False
    with Cons.IH show ?thesis by simp
  qed
qed

lemma dict_append_map:
  "distinct ks \<Longrightarrow>
   dict_append (map (\<lambda>k. (k, f k)) ks) key e =
     (if key \<in> set ks then map (\<lambda>k. (k, if k = key then f k @ [e] else f k)) ks
      else map (\<lambda>k. (k, f k)) ks @ [(key, [e])])"
  by (induction ks) auto

lemma group_step_grouped:
  "group_step (grouped (filter actionable es)) e = grouped (filter actionable (es @ [e]))"
proof (cases "actionable e")
  case False
  then show ?thesis by (simp add: group_step_def actionable_def)
next
  case True
  let ?kept = "filter actionable es"
  let ?key = "derive_incident_key e"
  have step: "group_step (grouped ?kept) e = dict_append (grouped ?kept) ?key e"
    using True by (simp add: group_step_def actionable_def)
  have kept: "filter actionable (es @ [e]) = ?kept @ [e]"
    using True by simp
  have "dict_append (grouped ?kept) ?key e = grouped (?kept @ [e])"
  proof (cases "?key \<in> set (map derive_incident_key ?kept)")
    case True
    then show ?thesis
      unfolding grouped_def
      by (simp add: dict_append_map distinct_first_seen set_first_seen first_seen_snoc)
  next
    case False
    then have none: "filter (\<lambda>x. derive_incident_key x = ?key) ?kept = []"
      by (force simp: filter_empty_conv image_iff)
    have other: "\<And>k. k \<in> set (first_seen (map derive_incident_key ?kept)) \<Longrightarrow> ?key \<noteq> k"
      using False by (auto simp: set_first_seen)
    show ?thesis
      unfolding grouped_def using False none other
      by (simp add: dict_append_map distinct_first_seen set_first_seen first_seen_snoc)
  qed
  with step kept show ?thesis by simp
qed

lemma group_incidents_snoc:
  "group_incidents (es @ [e]) = group_step (group_incidents es) e"
  by (simp add: group_incidents_def)

lemma group_incidents_grouped: "group_incidents es = grouped (filter actionable es)"
proof (induction es rule: rev_induct)
  case Nil
  show ?case by (simp add: group_incidents_def grouped_def)
next
  case (snoc e es)
  then show ?case by (simp only: group_incidents_snoc group_step_grouped)
qed

text \<open>
  Claim C7. \<open>group_incidents\<close> returns the mapping that holds exactly the records whose
  level is ERROR or WARN: its keys are the keys derived from those records, in the order
  each key was first seen, and the sequence of a key is the retained records with that
  key, in input order.
\<close>

theorem group_incidents_first_seen_order:
  "group_incidents entries =
     map (\<lambda>k. (k, filter (\<lambda>e. derive_incident_key e = k) (filter actionable entries)))
       (first_seen (map derive_incident_key (filter actionable entries)))
   \<and> map fst (group_incidents entries) =
       first_seen (map derive_incident_key (filter actionable entries))
   \<and> distinct (map fst (group_incidents entries))"
  using group_incidents_grouped[of entries]
  by (simp add: grouped_def comp_def distinct_first_seen)

section \<open>The prompt\<close>

lemma split1_sublist:
  "sublist ''::'' key \<Longrightarrow> \<exists>sv pattern. split1 ''::'' key = Some (sv, pattern) \<and> key = sv @ ''::'' @ pattern"
proof (induction key)
  case Nil
  then show ?case by simp
next
  case (Cons c cs)
  show ?case
  proof (cases "prefix ''::'' (c # cs)")
    case True
    then obtain r where "c # cs = ''::'' @ r" by (auto simp: prefix_def)
    then show ?thesis by auto
  next
    case False
    from Cons.prems have "prefix ''::'' (c # cs) \<or> sublist ''::'' cs"
      by (simp only: sublist_Cons_right)
    with False have "sublist ''::'' cs" by blast
    from Cons.IH[OF this] obtain sv pattern
      where "split1 ''::'' cs = Some (sv, pattern)" "cs = sv @ ''::'' @ pattern" by blast
    with False show ?thesis by auto
  qed
qed

lemma not_space_G: "\<not> is_space CHR ''G''" by (simp add: is_space_def)
lemma not_space_colon: "\<not> is_space CHR '':''" by (simp add: is_space_def)
lemma space_nl: "is_space CHR 0x0A" by (simp add: is_space_def)

lemma strip_prompt:
  "strip (''\<newline>'' @ prompt_head @ body @ ''\<newline>Report:\<newline>'') = prompt_head @ body @ ''\<newline>Report:''"
proof -
  obtain t where t: "prompt_head = CHR ''G'' # t" by (simp add: prompt_head_def)
  show ?thesis
    by (simp add: strip_def t not_space_G not_space_colon space_nl)
qed

text \<open>
  Claim C8. For an incident key (a text that holds the separator \<open>::\<close>, as every key
  of \<open>derive_incident_key\<close> does) and any list of records, \<open>build_summary_prompt\<close>
  returns the fixed head, then the last five records of the list (all of them when
  there are fewer), each rendered as \<open>timestamp [level] message\<close> and joined by line
  breaks, then the runbook line, and it ends with \<open>Report:\<close>: nothing follows the
  marker.
\<close>

theorem build_summary_prompt_shape:
  assumes "sublist ''::'' incident_key"
  shows "\<exists>sv pattern. split1 ''::'' incident_key = Some (sv, pattern)
           \<and> incident_key = sv @ ''::'' @ pattern
           \<and> build_summary_prompt incident_key entries =
               Inr (prompt_head
                    @ join ''\<newline>''
                        (map (\<lambda>e. timestamp e @ '' ['' @ level e @ ''] '' @ message e)
                           (drop (length entries - 5) entries))
                    @ ''\<newline>Runbook context: '' @ retrieve_runbook pattern
                    @ ''\<newline>Report:'')"
proof -
  from split1_sublist[OF assms] obtain sv pattern
    where sp: "split1 ''::'' incident_key = Some (sv, pattern)" "incident_key = sv @ ''::'' @ pattern"
    by blast
  let ?body = "join ''\<newline>'' (map render_entry (last5 entries)) @ ''\<newline>Runbook context: '' @ retrieve_runbook pattern"
  have "build_summary_prompt incident_key entries =
          Inr (strip (''\<newline>'' @ prompt_head @ ?body @ ''\<newline>Report:\<newline>''))"
    using sp(1) by (simp add: build_summary_prompt_def)
  also have "\<dots> = Inr (prompt_head @ ?body @ ''\<newline>Report:'')"
    by (simp only: strip_prompt)
  finally have "build_summary_prompt incident_key entries =
      Inr (prompt_head @ ?body @ ''\<newline>Report:'')" .
  moreover have "render_entry = (\<lambda>e. timestamp e @ '' ['' @ level e @ ''] '' @ message e)"
    by (rule ext) (simp add: render_entry_def)
  ultimately show ?thesis using sp by (auto simp: last5_def)
qed

text \<open>
  The key of a record of the service \<open>db\<close>, and six records under it: the first record
  is left out of the prompt.
\<close>

theorem build_summary_prompt_shape_witness:
  "sublist ''::''
     (derive_incident_key
        \<lparr>timestamp = ''t1'', service = ''db'', level = ''WARN'', message = ''Slow response 12ms''\<rparr>)
   \<and> build_summary_prompt
       (derive_incident_key
          \<lparr>timestamp = ''t1'', service = ''db'', level = ''WARN'', message = ''Slow response 12ms''\<rparr>)
       (map (\<lambda>t. \<lparr>timestamp = t, service = ''db'', level = ''WARN'', message = ''Slow response 12ms''\<rparr>)
          [''t1'', ''t2'', ''t3'', ''t4'', ''t5'', ''t6'']) =
     Inr (prompt_head
          @ ''t2 [WARN] Slow response 12ms\<newline>t3 [WARN] Slow response 12ms\<newline>''
          @ ''t4 [WARN] Slow response 12ms\<newline>t5 [WARN] Slow response 12ms\<newline>''
          @ ''t6 [WARN] Slow response 12ms''
          @ ''\<newline>Runbook context: RUNBOOK-PERF-12: Check Redis cache hit rate. If < 50%, flush cache or increase memory.''
          @ ''\<newline>Report:'')"
proof -
  let ?e = "\<lparr>timestamp = ''t1'', service = ''db'', level = ''WARN'', message = ''Slow response 12ms''\<rparr>"
  have k: "derive_incident_key ?e = ''db::slow response <NUM>ms''"
    by (simp add: derive_incident_key_col normalize_def lower_def strip_def
        space_tab decimal_tab lower_tab)
  have h: "sublist ''::'' (derive_incident_key ?e)"
    by (rule derive_incident_key_sep)
  have r: "retrieve_runbook ''slow response <NUM>ms'' =
      ''RUNBOOK-PERF-12: Check Redis cache hit rate. If < 50%, flush cache or increase memory.''"
    by (simp add: retrieve_runbook_def KNOWLEDGE_BASE_def)
  show ?thesis
    using build_summary_prompt_shape[OF h] h r unfolding k by simp
qed

section \<open>The report extractor\<close>

lemma lit_match_ic: "lit_match (map ic_match (cps w)) s \<longleftrightarrow> label_at w s"
proof (induction w arbitrary: s)
  case Nil
  show ?case by (simp add: label_at_def cps_def)
next
  case (Cons c w)
  show ?case
  proof (cases s)
    case Nil
    then show ?thesis by (simp add: label_at_def cps_def)
  next
    case (Cons x xs)
    with Cons.IH[of xs] show ?thesis by (auto simp add: label_at_def cps_def)
  qed
qed

lemma in_ms_lit_ic:
  "(k', s', g') \<in> set (ms (lit_ic w) (k, s, g)) \<longleftrightarrow>
     label_at w s \<and> k' = k + length w \<and> s' = drop (length w) s \<and> g' = g"
  unfolding lit_ic_def in_ms_Lit lit_match_ic by (simp add: cps_def)

lemma label_at_head:
  "label_at (c # cs) s \<Longrightarrow> \<exists>x xs. s = x # xs \<and> ic_match (of_char c) x"
  by (cases s) (simp_all add: label_at_def cps_def)

lemma ic_match_P: "ic_match 80 c \<longleftrightarrow> c = 80 \<or> c = 112"
  by (auto simp: ic_match_def)

lemma ic_match_R: "ic_match 82 c \<longleftrightarrow> c = 82 \<or> c = 114"
  by (auto simp: ic_match_def)

lemma not_space_P: "p = 80 \<or> p = 112 \<Longrightarrow> \<not> u_space p"
  by (auto simp: u_space_def)

lemma severity_rx_match:
  assumes "(k', s', g') \<in> set (ms (severity_rx nd) (k, t, g))"
  shows "\<exists>w p d rest. label_at ''Severity:'' t
           \<and> drop (length ''Severity:'') t = w @ p # d # rest \<and> list_all u_space w
           \<and> (p = 80 \<or> p = 112) \<and> u_decimal nd d \<and> g' 1 = Some [p, d]
           \<and> (rest = [] \<or> rest = [10]
               \<or> (\<exists>w' u. rest = w' @ u \<and> list_all u_space w' \<and> label_at ''Root Cause:'' u))"
proof -
  let ?look = "Alt (Seq (Star u_space) (lit_ic ''Root Cause:'')) (Eos 10)"
  let ?grp = "Grp 1 (Seq (lit_ic ''P'') (Cls (u_decimal nd)))"
  have rx: "severity_rx nd =
      Seq (lit_ic ''Severity:'') (Seq (Star u_space) (Seq ?grp (Look ?look)))"
    by (simp add: severity_rx_def)
  from assms[unfolded rx] obtain k1 s1 g1 where
    1: "(k1, s1, g1) \<in> set (ms (lit_ic ''Severity:'') (k, t, g))" and
    r1: "(k', s', g') \<in> set (ms (Seq (Star u_space) (Seq ?grp (Look ?look))) (k1, s1, g1))"
    by (rule ms_SeqE)
  from 1 have l1: "label_at ''Severity:'' t" "s1 = drop (length ''Severity:'') t" "g1 = g"
    by (simp_all only: in_ms_lit_ic)
  from r1 obtain k2 s2 g2 where
    2: "(k2, s2, g2) \<in> set (ms (Star u_space) (k1, s1, g1))" and
    r2: "(k', s', g') \<in> set (ms (Seq ?grp (Look ?look)) (k2, s2, g2))"
    by (rule ms_SeqE)
  from 2 obtain w where w: "s1 = w @ s2" "list_all u_space w" "g2 = g1"
    by (auto simp only: in_ms_Star)
  from r2 obtain k3 s3 g3 where
    3: "(k3, s3, g3) \<in> set (ms ?grp (k2, s2, g2))" and
    r3: "(k', s', g') \<in> set (ms (Look ?look) (k3, s3, g3))"
    by (rule ms_SeqE)
  from 3 obtain g3' where
    4: "(k3, s3, g3') \<in> set (ms (Seq (lit_ic ''P'') (Cls (u_decimal nd))) (k2, s2, g2))" and
    g3: "g3 = g3'(1 \<mapsto> take (k3 - k2) s2)"
    by (auto simp only: in_ms_Grp)
  from 4 obtain k4 s4 g4 where
    5: "(k4, s4, g4) \<in> set (ms (lit_ic ''P'') (k2, s2, g2))" and
    6: "(k3, s3, g3') \<in> set (ms (Cls (u_decimal nd)) (k4, s4, g4))"
    by (rule ms_SeqE)
  from 5 have p: "label_at ''P'' s2" "k4 = k2 + 1" "s4 = drop 1 s2"
    by (simp_all only: in_ms_lit_ic list.size One_nat_def add_0 length_Cons)
  from 6 obtain d where d: "s4 = d # s3" "u_decimal nd d" "k3 = Suc k4"
    by (auto simp only: in_ms_Cls)
  from label_at_head[OF p(1)] obtain pc s2' where s2: "s2 = pc # s2'" "ic_match 80 pc"
    by auto
  from s2(2) have pc: "pc = 80 \<or> pc = 112" by (simp only: ic_match_P)
  from s2 p(3) d have s2_eq: "s2 = pc # d # s3" by simp
  from p(2) d(3) have "k3 - k2 = 2" by simp
  with g3 s2_eq have g3_1: "g3 1 = Some [pc, d]" by simp
  from in_ms_Look[OF r3] obtain k5 s5 where
    7: "(k5, s5, g') \<in> set (ms ?look (k3, s3, g3))" by blast
  have "1 \<notin> grps ?look" by (simp add: lit_ic_def)
  from ms_keep[OF 7 this] g3_1 have g': "g' 1 = Some [pc, d]" by simp
  from 7 have "(k5, s5, g') \<in> set (ms (Seq (Star u_space) (lit_ic ''Root Cause:'')) (k3, s3, g3))
      \<or> (k5, s5, g') \<in> set (ms (Eos 10) (k3, s3, g3))"
    by (simp only: in_ms_Alt)
  then have tail: "s3 = [] \<or> s3 = [10]
      \<or> (\<exists>w' u. s3 = w' @ u \<and> list_all u_space w' \<and> label_at ''Root Cause:'' u)"
  proof
    assume "(k5, s5, g') \<in> set (ms (Seq (Star u_space) (lit_ic ''Root Cause:'')) (k3, s3, g3))"
    then obtain k6 s6 g6 where
      8: "(k6, s6, g6) \<in> set (ms (Star u_space) (k3, s3, g3))" and
      9: "(k5, s5, g') \<in> set (ms (lit_ic ''Root Cause:'') (k6, s6, g6))"
      by (rule ms_SeqE)
    from 8 obtain w' where "s3 = w' @ s6" "list_all u_space w'" by (auto simp only: in_ms_Star)
    moreover from 9 have "label_at ''Root Cause:'' s6" by (simp only: in_ms_lit_ic)
    ultimately show ?thesis by blast
  next
    assume "(k5, s5, g') \<in> set (ms (Eos 10) (k3, s3, g3))"
    then show ?thesis by (simp only: in_ms_Eos) blast
  qed
  from l1(2) w(1) s2_eq have "drop (length ''Severity:'') t = w @ pc # d # s3" by simp
  with l1(1) w(2) pc d(2) g' tail show ?thesis by blast
qed

lemma has_severity_shape_append:
  "has_severity_shape b nd t \<Longrightarrow> has_severity_shape b nd (pre @ t)"
  by (induction pre) auto

lemma severity_match_shape:
  assumes "(k', s', g') \<in> set (ms (severity_rx nd) (k, t, g))"
  shows "has_severity_shape False nd t"
proof -
  from severity_rx_match[OF assms] obtain w p d rest where
    m: "label_at ''Severity:'' t" "drop (length ''Severity:'') t = w @ p # d # rest"
       "list_all u_space w" "p = 80 \<or> p = 112" "u_decimal nd d"
       "rest = [] \<or> rest = [10]
         \<or> (\<exists>w' u. rest = w' @ u \<and> list_all u_space w' \<and> label_at ''Root Cause:'' u)"
    by blast
  have dw: "dropWhile u_space (w @ p # d # rest) = p # d # rest"
    using dropWhile_all[OF m(3), of "p # d # rest"] not_space_P[OF m(4)] by simp
  have tail: "rest = [] \<or> rest = [10] \<or> label_at ''Root Cause:'' (dropWhile u_space rest)"
    using m(6)
  proof (elim disjE exE conjE)
    fix w' u
    assume u: "rest = w' @ u" "list_all u_space w'" "label_at ''Root Cause:'' u"
    from label_at_head[OF u(3)] obtain x xs where x: "u = x # xs" "ic_match 82 x" by auto
    from x(2) have "\<not> u_space x" by (auto simp: ic_match_R u_space_def)
    with x(1) have "u = [] \<or> \<not> u_space (hd u)" by simp
    with dropWhile_all[OF u(2), of u] u(1) have "dropWhile u_space rest = u" by simp
    with u(3) show ?thesis by simp
  qed simp_all
  have "severity_value False nd (drop (length ''Severity:'') t)"
    unfolding severity_value_def m(2) dw using m(4,5) tail by auto
  moreover from m(1) obtain c cs where "t = c # cs" by (cases t) (auto simp: label_at_def)
  ultimately show ?thesis using m(1) by simp
qed

lemma search_severity_shape:
  "re_search (severity_rx nd) inp = Some m \<Longrightarrow> has_severity_shape False nd inp"
proof -
  assume "re_search (severity_rx nd) inp = Some m"
  then obtain pre t where "inp = pre @ t" "m \<in> set (ms (severity_rx nd) (length pre, t, Map.empty))"
    using search_from_in[of "severity_rx nd" 0 inp m] by (auto simp: re_search_def)
  moreover obtain k' s' g' where "m = (k', s', g')" by (cases m)
  ultimately show ?thesis
    using severity_match_shape[of k' s' g' nd "length pre" t Map.empty] has_severity_shape_append
    by blast
qed

lemma search_severity_group:
  assumes "re_search (severity_rx nd) inp = Some m"
  shows "\<exists>p d pre lab w rest. group m 1 = Some [p, d] \<and> (p = 80 \<or> p = 112) \<and> u_decimal nd d
           \<and> inp = pre @ lab @ w @ p # d # rest \<and> label_at ''Severity:'' lab
           \<and> length lab = length ''Severity:'' \<and> list_all u_space w"
proof -
  from assms obtain pre t where
    t: "inp = pre @ t" "m \<in> set (ms (severity_rx nd) (length pre, t, Map.empty))"
    using search_from_in[of "severity_rx nd" 0 inp m] by (auto simp: re_search_def)
  obtain k' s' g' where m: "m = (k', s', g')" by (cases m)
  from severity_rx_match[of k' s' g' nd "length pre" t Map.empty] t(2) m
  obtain w p d rest where
    r: "label_at ''Severity:'' t" "drop (length ''Severity:'') t = w @ p # d # rest"
       "list_all u_space w" "p = 80 \<or> p = 112" "u_decimal nd d" "g' 1 = Some [p, d]"
    by blast
  let ?lab = "take (length ''Severity:'') t"
  from r(1) have len: "length ?lab = length ''Severity:''" and lab: "label_at ''Severity:'' ?lab"
    by (simp_all add: label_at_def)
  have "t = ?lab @ drop (length ''Severity:'') t" by simp
  with r(2) have "t = ?lab @ w @ p # d # rest" by simp
  with t(1) have "inp = pre @ ?lab @ w @ p # d # rest" by simp
  moreover from m r(6) have "group m 1 = Some [p, d]" by (simp add: group_def)
  ultimately show ?thesis using r(3,4,5) len lab by blast
qed

lemma search_group1:
  assumes "sets_grp 1 r" "re_search r inp = Some m"
  shows "\<exists>t. group m 1 = Some t"
proof -
  from assms(2) obtain pre t where "inp = pre @ t" "m \<in> set (ms r (length pre, t, Map.empty))"
    using search_from_in[of r 0 inp m] by (auto simp: re_search_def)
  moreover obtain k' s' g' where "m = (k', s', g')" by (cases m)
  ultimately show ?thesis
    using ms_sets[of k' s' g' r "length pre" t Map.empty 1] assms(1)
    by (auto simp: group_def)
qed

lemma set_field_eq:
  assumes "sets_grp 1 r"
  shows "set_field (re_search r inp) upd d =
     Inr (case re_search r inp of None \<Rightarrow> d | Some m \<Rightarrow> upd (u_strip (the (group m 1))) d)"
proof (cases "re_search r inp")
  case None
  then show ?thesis by (simp add: set_field_def)
next
  case (Some m)
  from search_group1[OF assms Some] obtain t where "group m 1 = Some t" by blast
  with Some show ?thesis by (simp add: set_field_def then_do_def group1_strip_def)
qed

lemma sets_grp_rxs:
  "sets_grp 1 summary_rx" "sets_grp 1 (severity_rx nd)" "sets_grp 1 root_cause_rx"
  "sets_grp 1 actions_rx"
  by (simp_all add: summary_rx_def severity_rx_def root_cause_rx_def actions_rx_def)

lemma search_empty:
  "re_search summary_rx [] = None" "re_search (severity_rx nd) [] = None"
  "re_search root_cause_rx [] = None" "re_search actions_rx [] = None"
  by (simp_all add: re_search_def summary_rx_def severity_rx_def root_cause_rx_def actions_rx_def
      lit_ic_def cps_def)

lemma parse_severity:
  "\<exists>r. parse_llm_output_to_json nd inp = Inr r
     \<and> severity r = (case re_search (severity_rx nd) inp of None \<Rightarrow> cps ''P3''
                     | Some m \<Rightarrow> u_strip (the (group m 1)))"
  by (simp add: parse_llm_output_to_json_def Let_def then_do_def
      set_field_eq[OF sets_grp_rxs(1)] set_field_eq[OF sets_grp_rxs(2)]
      set_field_eq[OF sets_grp_rxs(3)] set_field_eq[OF sets_grp_rxs(4)]
      split: option.splits)

text \<open>
  Claim C2. \<open>parse_llm_output_to_json\<close> returns a report for every text, whatever
  decimal digits the runtime knows: no call of \<open>group(1).strip()\<close> meets a group that
  took no part. For the empty text the report is the default record.
\<close>

theorem parse_llm_output_total:
  "(\<exists>r. parse_llm_output_to_json nd inp = Inr r)
   \<and> parse_llm_output_to_json nd [] =
       Inr \<lparr>summary = cps ''N/A'', severity = cps ''P3'', root_cause = cps ''N/A'',
            action_items = []\<rparr>"
proof
  from parse_severity[of nd inp] show "\<exists>r. parse_llm_output_to_json nd inp = Inr r" by blast
next
  show "parse_llm_output_to_json nd [] =
       Inr \<lparr>summary = cps ''N/A'', severity = cps ''P3'', root_cause = cps ''N/A'',
            action_items = []\<rparr>"
    by (simp add: parse_llm_output_to_json_def Let_def then_do_def search_empty set_field_def)
qed

subsection \<open>The extractor on concrete texts\<close>

lemma u_strip_no_space: "\<not> u_space p \<Longrightarrow> \<not> u_space d \<Longrightarrow> u_strip [p, d] = [p, d]"
  by (simp add: u_strip_def)

lemma ascii_digit_no_space: "48 \<le> d \<Longrightarrow> d \<le> 57 \<Longrightarrow> \<not> u_space d"
  by (simp add: u_space_def)

lemma arabic_indic_no_space: "\<forall>n. arabic_indic n \<longrightarrow> \<not> u_space n"
  by (simp add: arabic_indic_def u_space_def)

text \<open>The definitions that evaluate the extractor, and those that evaluate the line parser.\<close>

lemmas eval_defs =
  parse_llm_output_to_json_def re_search_def summary_rx_def severity_rx_def
  root_cause_rx_def actions_rx_def set_field_def then_do_def group1_strip_def
  group_def u_strip_def any_cp_def Let_def split_actions_def lit_ic_def cps_def
  u_space_def u_decimal_def ic_match_def arabic_indic_def

lemmas log_eval_defs =
  parse_log_line_def re_match_def log_rx_def lit_def group_def strip_def Let_def
  space_tab decimal_tab lower_tab word_tab

text \<open>
  The case folding of \<open>IGNORECASE\<close> reaches beyond the two cases of a letter: the long s
  (U+017F) stands for the \<open>s\<close> of the label and the dotless i (U+0131) for its \<open>i\<close>, and
  the class \<open>\d\<close> takes the digits of other scripts, here ARABIC-INDIC DIGIT THREE
  (U+0663).
\<close>

lemma severity_label_folding:
  "parse_llm_output_to_json arabic_indic (383 # cps ''everity: P1'') =
     Inr \<lparr>summary = cps ''N/A'', severity = cps ''P1'', root_cause = cps ''N/A'',
          action_items = []\<rparr>"
  "parse_llm_output_to_json arabic_indic (cps ''Sever'' @ 305 # cps ''ty: P2'') =
     Inr \<lparr>summary = cps ''N/A'', severity = cps ''P2'', root_cause = cps ''N/A'',
          action_items = []\<rparr>"
  "parse_llm_output_to_json arabic_indic (cps ''Severity: P'' @ [1635]) =
     Inr \<lparr>summary = cps ''N/A'', severity = cps ''P'' @ [1635], root_cause = cps ''N/A'',
          action_items = []\<rparr>"
  by (simp_all add: eval_defs)

text \<open>
  Of the bracketed words in the action items only the literal \<open>[TARGET]\<close> is removed;
  any other stays in its item.
\<close>

lemma actions_only_target_removed:
  "parse_llm_output_to_json arabic_indic (cps ''Action Items: restart, [EXAMPLE] scale'') =
     Inr \<lparr>summary = cps ''N/A'', severity = cps ''P3'', root_cause = cps ''N/A'',
          action_items = [cps ''restart'', cps ''[EXAMPLE] scale'']\<rparr>"
  "parse_llm_output_to_json arabic_indic (cps ''Action Items: [TARGET] restart, , scale '') =
     Inr \<lparr>summary = cps ''N/A'', severity = cps ''P3'', root_cause = cps ''N/A'',
          action_items = [cps ''restart'', cps ''scale'']\<rparr>"
  by (simp_all add: eval_defs)

subsection \<open>The severity\<close>

text \<open>
  Claim C3, as the code has it. The parameter \<open>nd\<close> is the set of the decimal digits
  beyond 0 to 9 that the class \<open>\d\<close> of the runtime takes; none of them is white space.
  The severity of the report is the default \<open>P3\<close>, kept whenever the severity pattern
  finds no match, or the two characters that the first match of the pattern captured:
  they stand in the text behind a \<open>Severity:\<close> label and white space, and are the letter
  \<open>P\<close> in either case and one decimal digit. The digit is any character of \<open>\d\<close>, so the
  severity need not be one of P1, P2, P3, P4.
\<close>

theorem severity_P_digit_or_default:
  assumes "\<forall>n. nd n \<longrightarrow> \<not> u_space n"
  shows "\<exists>r. parse_llm_output_to_json nd inp = Inr r
     \<and> (case re_search (severity_rx nd) inp of
          None \<Rightarrow> severity r = cps ''P3''
        | Some m \<Rightarrow>
            (\<exists>p d pre lab w rest. group m 1 = Some [p, d] \<and> severity r = [p, d]
               \<and> (p = of_char CHR ''P'' \<or> p = of_char CHR ''p'') \<and> u_decimal nd d
               \<and> inp = pre @ lab @ w @ p # d # rest \<and> label_at ''Severity:'' lab
               \<and> length lab = length ''Severity:'' \<and> list_all u_space w))"
proof -
  from parse_severity[of nd inp] obtain r where
    r: "parse_llm_output_to_json nd inp = Inr r"
       "severity r = (case re_search (severity_rx nd) inp of None \<Rightarrow> cps ''P3''
                     | Some m \<Rightarrow> u_strip (the (group m 1)))" by blast
  show ?thesis
  proof (cases "re_search (severity_rx nd) inp")
    case None
    with r show ?thesis by auto
  next
    case (Some m)
    from search_severity_group[OF Some] obtain p d pre lab w rest where
      pd: "group m 1 = Some [p, d]" "p = 80 \<or> p = 112" "u_decimal nd d"
          "inp = pre @ lab @ w @ p # d # rest" "label_at ''Severity:'' lab"
          "length lab = length ''Severity:''" "list_all u_space w" by blast
    have "\<not> u_space p" using pd(2) by (rule not_space_P)
    moreover have "\<not> u_space d"
      using pd(3) assms ascii_digit_no_space[of d] by (auto simp: u_decimal_def)
    ultimately have "u_strip [p, d] = [p, d]" by (rule u_strip_no_space)
    with r(2) Some pd(1) have sev: "severity r = [p, d]" by simp
    from pd(2) have p: "p = of_char CHR ''P'' \<or> p = of_char CHR ''p''" by simp
    have "\<exists>p d pre lab w rest. group m 1 = Some [p, d] \<and> severity r = [p, d]
               \<and> (p = of_char CHR ''P'' \<or> p = of_char CHR ''p'') \<and> u_decimal nd d
               \<and> inp = pre @ lab @ w @ p # d # rest \<and> label_at ''Severity:'' lab
               \<and> length lab = length ''Severity:'' \<and> list_all u_space w"
      using pd(1) sev p pd(3-7) by blast
    with r(1) Some show ?thesis by simp
  qed
qed

text \<open>
  The text \<open>Severity: P9\<close> gets the severity \<open>P9\<close>, and the text \<open>Severity: P\<close> with
  ARABIC-INDIC DIGIT THREE behind it gets those two characters; neither is one of the
  four.
\<close>

theorem severity_not_P1_to_P4:
  "parse_llm_output_to_json arabic_indic (cps ''Severity: P9'') =
     Inr \<lparr>summary = cps ''N/A'', severity = cps ''P9'', root_cause = cps ''N/A'',
          action_items = []\<rparr>
   \<and> cps ''P9'' \<notin> {cps ''P1'', cps ''P2'', cps ''P3'', cps ''P4''}
   \<and> parse_llm_output_to_json arabic_indic (cps ''Severity: P'' @ [1635]) =
     Inr \<lparr>summary = cps ''N/A'', severity = cps ''P'' @ [1635], root_cause = cps ''N/A'',
          action_items = []\<rparr>
   \<and> cps ''P'' @ [1635] \<notin> {cps ''P1'', cps ''P2'', cps ''P3'', cps ''P4''}"
  by (simp add: eval_defs)

theorem severity_P_digit_or_default_witness:
  "(\<exists>r. parse_llm_output_to_json arabic_indic (cps ''Severity: P'' @ [1635]) = Inr r
        \<and> severity r = cps ''P'' @ [1635])
   \<and> (\<exists>r. parse_llm_output_to_json arabic_indic (cps ''Severity: high'') = Inr r
        \<and> severity r = cps ''P3'')"
proof
  have s: "re_search (severity_rx arabic_indic) (cps ''Severity: P'' @ [1635]) =
      Some (12, [], [1 \<mapsto> [80, 1635]])"
    by (simp add: eval_defs)
  from severity_P_digit_or_default[OF arabic_indic_no_space, of "cps ''Severity: P'' @ [1635]"]
  show "\<exists>r. parse_llm_output_to_json arabic_indic (cps ''Severity: P'' @ [1635]) = Inr r
        \<and> severity r = cps ''P'' @ [1635]"
    unfolding s by (auto simp: group_def cps_def)
next
  have s: "re_search (severity_rx arabic_indic) (cps ''Severity: high'') = None"
    by (simp add: eval_defs)
  from severity_P_digit_or_default[OF arabic_indic_no_space, of "cps ''Severity: high''"]
  show "\<exists>r. parse_llm_output_to_json arabic_indic (cps ''Severity: high'') = Inr r
        \<and> severity r = cps ''P3''"
    unfolding s by simp
qed

text \<open>
  Claim C4, as the code has it. A text has the severity shape when one of its
  \<open>Severity:\<close> labels, its letters in any form that \<open>IGNORECASE\<close> folds onto them, is
  followed by white space or none, the letter \<open>P\<close> in either case and one decimal digit
  of \<open>\d\<close>, and then the text ends (a last line break apart) or goes on, behind white
  space or none, with a \<open>Root Cause:\<close> label. A text without that shape keeps the default
  severity \<open>P3\<close>; so does the text \<open>Summary: x Severity: CRITICAL Root Cause: y\<close>. The
  pattern is compiled with \<open>IGNORECASE\<close>, so a small \<open>p\<close> has the shape too.
\<close>

theorem severity_shape_or_default:
  "(\<not> has_severity_shape False nd inp \<longrightarrow>
      (\<exists>r. parse_llm_output_to_json nd inp = Inr r \<and> severity r = cps ''P3''))
   \<and> parse_llm_output_to_json nd (cps ''Summary: x Severity: CRITICAL Root Cause: y'') =
       Inr \<lparr>summary = cps ''x'', severity = cps ''P3'', root_cause = cps ''y'',
            action_items = []\<rparr>"
proof
  show "\<not> has_severity_shape False nd inp \<longrightarrow>
      (\<exists>r. parse_llm_output_to_json nd inp = Inr r \<and> severity r = cps ''P3'')"
  proof
    assume no: "\<not> has_severity_shape False nd inp"
    have "re_search (severity_rx nd) inp = None"
    proof (cases "re_search (severity_rx nd) inp")
      case (Some m)
      from search_severity_shape[OF Some] no show ?thesis by simp
    qed simp
    with parse_severity[of nd inp]
    show "\<exists>r. parse_llm_output_to_json nd inp = Inr r \<and> severity r = cps ''P3''"
      by auto
  qed
next
  show "parse_llm_output_to_json nd (cps ''Summary: x Severity: CRITICAL Root Cause: y'') =
       Inr \<lparr>summary = cps ''x'', severity = cps ''P3'', root_cause = cps ''y'',
            action_items = []\<rparr>"
    by (simp add: eval_defs)
qed

text \<open>
  The text \<open>Severity: p1\<close> has no capital \<open>P\<close> behind its label, and its severity is
  \<open>p1\<close>, not the default.
\<close>

theorem severity_small_p_accepted:
  "\<not> has_severity_shape True arabic_indic (cps ''Severity: p1'')
   \<and> parse_llm_output_to_json arabic_indic (cps ''Severity: p1'') =
     Inr \<lparr>summary = cps ''N/A'', severity = cps ''p1'', root_cause = cps ''N/A'',
          action_items = []\<rparr>"
  by (simp add: eval_defs severity_value_def label_at_def)

theorem severity_shape_or_default_witness:
  "\<not> has_severity_shape False arabic_indic (cps ''Severity: CRITICAL'')
   \<and> (\<exists>r. parse_llm_output_to_json arabic_indic (cps ''Severity: CRITICAL'') = Inr r
         \<and> severity r = cps ''P3'')"
proof -
  have h: "\<not> has_severity_shape False arabic_indic (cps ''Severity: CRITICAL'')"
    by (simp add: eval_defs severity_value_def label_at_def)
  with severity_shape_or_default[of arabic_indic "cps ''Severity: CRITICAL''"]
  show ?thesis by blast
qed

section \<open>The line parser\<close>

lemma takeWhile_all:
  "list_all P w \<Longrightarrow> (s = [] \<or> \<not> P (hd s)) \<Longrightarrow> takeWhile P (w @ s) = w"
proof (induction w)
  case Nil
  then show ?case by (cases s) auto
next
  case (Cons c w)
  then show ?case by simp
qed

lemma leads_Seq:
  assumes "ms a st = x # xs" and "leads b x t G"
  shows "leads (Seq a b) st t G"
proof -
  from assms(2) obtain k' rest where "ms b x = (k', t, G) # rest"
    unfolding leads_def by blast
  with assms(1) have "ms (Seq a b) st = (k', t, G) # (rest @ concat (map (ms b) xs))"
    by simp
  then show ?thesis unfolding leads_def by blast
qed

lemma ms_Plus_run:
  assumes "w \<noteq> []" "list_all P w" "s = [] \<or> \<not> P (hd s)"
  shows "\<exists>rest. ms (Plus P) (k, w @ s, g) = (k + length w, s, g) # rest"
proof -
  from assms(1) obtain c w' where w: "w = c # w'" by (cases w) auto
  with assms(2) have c: "P c" "list_all P w'" by simp_all
  from ms_Plus_first[of P c k "w' @ s" g] c(1) obtain rest where
    "ms (Plus P) (k, c # (w' @ s), g) =
       (Suc k + length (takeWhile P (w' @ s)), dropWhile P (w' @ s), g) # rest" by blast
  with takeWhile_all[OF c(2) assms(3)] dropWhile_all[OF c(2) assms(3)] w
  have "ms (Plus P) (k, w @ s, g) = (k + length w, s, g) # rest" by simp
  then show ?thesis by blast
qed

lemma ms_Star_run:
  assumes "list_all P w" "s = [] \<or> \<not> P (hd s)"
  shows "\<exists>rest. ms (Star P) (k, w @ s, g) = (k + length w, s, g) # rest"
proof -
  obtain x xs where x: "star_greedy P k (w @ s) = x # xs"
    using star_greedy_ne[of P k "w @ s"] by (cases "star_greedy P k (w @ s)") auto
  with hd_star_greedy[of P k "w @ s"] takeWhile_all[OF assms] dropWhile_all[OF assms]
  have "x = (k + length w, s)" by simp
  with x show ?thesis by simp
qed

lemma leads_Plus:
  assumes "w \<noteq> []" "list_all P w" "s = [] \<or> \<not> P (hd s)"
    and "leads R (k + length w, s, g) t G"
  shows "leads (Seq (Plus P) R) (k, w @ s, g) t G"
proof -
  from ms_Plus_run[OF assms(1-3)] obtain rest where
    "ms (Plus P) (k, w @ s, g) = (k + length w, s, g) # rest" by blast
  from leads_Seq[OF this assms(4)] show ?thesis .
qed

lemma leads_Grp_Plus:
  assumes "w \<noteq> []" "list_all P w" "s = [] \<or> \<not> P (hd s)"
    and "leads R (k + length w, s, g(n \<mapsto> w)) t G"
  shows "leads (Seq (Grp n (Plus P)) R) (k, w @ s, g) t G"
proof -
  from ms_Plus_run[OF assms(1-3)] obtain rest where
    "ms (Plus P) (k, w @ s, g) = (k + length w, s, g) # rest" by blast
  then have "ms (Grp n (Plus P)) (k, w @ s, g) =
      (k + length w, s, g(n \<mapsto> w)) #
        map (\<lambda>(k', s', g'). (k', s', g'(n \<mapsto> take (k' - k) (w @ s)))) rest"
    by (simp del: ms.simps(4) add: ms.simps(8))
  from leads_Seq[OF this assms(4)] show ?thesis .
qed

lemma leads_Lit:
  assumes "leads R (k + length w, s, g) t G"
  shows "leads (Seq (lit w) R) (k, w @ s, g) t G"
proof -
  have "ms (lit w) (k, w @ s, g) = [(k + length w, s, g)]"
    by (simp add: lit_def lit_match_plain)
  from leads_Seq[OF this assms] show ?thesis .
qed

lemma leads_Bos:
  assumes "leads R (0, s, g) t G"
  shows "leads (Seq Bos R) (0, s, g) t G"
proof -
  have "ms Bos (0, s, g) = [(0, s, g)]" by simp
  from leads_Seq[OF this assms] show ?thesis .
qed

lemma leads_Grp_Star_Eos:
  assumes "list_all P w"
  shows "leads (Seq (Grp n (Star P)) (Eos nl)) (k, w, g) [] (g(n \<mapsto> w))"
proof -
  from ms_Star_run[OF assms, of "[]" k g] obtain rest where
    "ms (Star P) (k, w, g) = (k + length w, [], g) # rest" by auto
  then have 1: "ms (Grp n (Star P)) (k, w, g) =
      (k + length w, [], g(n \<mapsto> w)) #
        map (\<lambda>(k', s', g'). (k', s', g'(n \<mapsto> take (k' - k) w))) rest"
    by (simp del: ms.simps(3) add: ms.simps(8))
  have "leads (Eos nl) (k + length w, [], g(n \<mapsto> w)) [] (g(n \<mapsto> w))"
    by (simp add: leads_def)
  from leads_Seq[OF 1 this] show ?thesis .
qed

lemma log_rx_unfold:
  "log_rx =
     Seq Bos (Seq (Grp 1 (Plus (\<lambda>c. \<not> is_space c))) (Seq (Plus is_space)
     (Seq (lit ''['') (Seq (Grp 2 (Plus (\<lambda>c. c \<noteq> CHR '']''))) (Seq (lit '']'')
     (Seq (Plus is_space) (Seq (Grp 3 (Plus is_word)) (Seq (lit '':'')
     (Seq (Plus is_space) (Seq (Grp 4 (Star (\<lambda>c. c \<noteq> CHR 0x0A))) (Eos CHR 0x0A)))))))))))"
  by (simp add: log_rx_def)

lemma log_rx_leads:
  assumes g: "log_grammar ts ws1 sv ws2 lv ws3 msg"
    and m: "dropWhile is_space msg = msg"
  shows "leads log_rx (0, log_line ts ws1 sv ws2 lv ws3 msg, Map.empty) []
           [1 \<mapsto> ts, 2 \<mapsto> sv, 3 \<mapsto> lv, 4 \<mapsto> msg]"
proof -
  from g have ts: "ts \<noteq> []" "list_all (\<lambda>c. \<not> is_space c) ts"
    and ws1: "ws1 \<noteq> []" "list_all is_space ws1"
    and sv: "sv \<noteq> []" "list_all (\<lambda>c. c \<noteq> CHR '']'') sv"
    and ws2: "ws2 \<noteq> []" "list_all is_space ws2"
    and lv: "lv \<noteq> []" "list_all is_word lv"
    and ws3: "ws3 \<noteq> []" "list_all is_space ws3"
    and msg: "list_all (\<lambda>c. c \<noteq> CHR 0x0A) msg"
    unfolding log_grammar_def by simp_all
  have b1: "ws1 @ ''['' @ sv @ '']'' @ ws2 @ lv @ '':'' @ ws3 @ msg = []
      \<or> \<not> \<not> is_space (hd (ws1 @ ''['' @ sv @ '']'' @ ws2 @ lv @ '':'' @ ws3 @ msg))"
    using ws1 by (cases ws1) auto
  have b2: "''['' @ sv @ '']'' @ ws2 @ lv @ '':'' @ ws3 @ msg = []
      \<or> \<not> is_space (hd (''['' @ sv @ '']'' @ ws2 @ lv @ '':'' @ ws3 @ msg))"
    by (simp add: space_tab)
  have b3: "'']'' @ ws2 @ lv @ '':'' @ ws3 @ msg = []
      \<or> \<not> hd ('']'' @ ws2 @ lv @ '':'' @ ws3 @ msg) \<noteq> CHR '']''"
    by simp
  have b4: "lv @ '':'' @ ws3 @ msg = [] \<or> \<not> is_space (hd (lv @ '':'' @ ws3 @ msg))"
    using lv by (cases lv) (auto simp: word_not_space)
  have b5: "'':'' @ ws3 @ msg = [] \<or> \<not> is_word (hd ('':'' @ ws3 @ msg))"
    by (simp add: word_tab)
  have b6: "msg = [] \<or> \<not> is_space (hd msg)"
    using m hd_dropWhile[of is_space msg] by (cases msg) auto
  show ?thesis
    unfolding log_rx_unfold log_line_def
    apply (rule leads_Bos)
    apply (rule leads_Grp_Plus[OF ts b1])
    apply (rule leads_Plus[OF ws1 b2])
    apply (rule leads_Lit)
    apply (rule leads_Grp_Plus[OF sv b3])
    apply (rule leads_Lit)
    apply (rule leads_Plus[OF ws2 b4])
    apply (rule leads_Grp_Plus[OF lv b5])
    apply (rule leads_Lit)
    apply (rule leads_Plus[OF ws3 b6])
    apply (rule leads_Grp_Star_Eos[OF msg])
    done
qed

lemma ms_PlusE:
  assumes "(k', s', g') \<in> set (ms (Plus P) (k, s, g))"
  obtains w where "w \<noteq> []" "list_all P w" "s = w @ s'"
  using assms by (auto simp only: in_ms_Plus)

lemma ms_Grp_PlusE:
  assumes "(k', s', g') \<in> set (ms (Grp n (Plus P)) (k, s, g))"
  obtains w where "w \<noteq> []" "list_all P w" "s = w @ s'"
  using assms by (auto simp only: in_ms_Grp in_ms_Plus)

lemma ms_Grp_StarE:
  assumes "(k', s', g') \<in> set (ms (Grp n (Star P)) (k, s, g))"
  obtains w where "list_all P w" "s = w @ s'"
  using assms by (auto simp only: in_ms_Grp in_ms_Star)

lemma ms_LitD:
  assumes "(k', s', g') \<in> set (ms (lit w) (k, s, g))"
  shows "s = w @ s'"
proof -
  from assms have "prefix w s" "s' = drop (length w) s"
    by (simp_all only: in_ms_lit)
  then show ?thesis by (auto simp: prefix_def)
qed

lemma log_rx_sound:
  assumes "(k', s', g') \<in> set (ms log_rx (k, s, g))"
  shows "\<exists>ts ws1 sv ws2 lv ws3 msg. log_grammar ts ws1 sv ws2 lv ws3 msg
           \<and> s = log_line ts ws1 sv ws2 lv ws3 msg @ s' \<and> (s' = [] \<or> s' = [CHR 0x0A])"
proof -
  let ?R11 = "Eos CHR 0x0A"
  let ?R10 = "Seq (Grp 4 (Star (\<lambda>c. c \<noteq> CHR 0x0A))) ?R11"
  let ?R9 = "Seq (Plus is_space) ?R10"
  let ?R8 = "Seq (lit '':'') ?R9"
  let ?R7 = "Seq (Grp 3 (Plus is_word)) ?R8"
  let ?R6 = "Seq (Plus is_space) ?R7"
  let ?R5 = "Seq (lit '']'') ?R6"
  let ?R4 = "Seq (Grp 2 (Plus (\<lambda>c. c \<noteq> CHR '']''))) ?R5"
  let ?R3 = "Seq (lit ''['') ?R4"
  let ?R2 = "Seq (Plus is_space) ?R3"
  let ?R1 = "Seq (Grp 1 (Plus (\<lambda>c. \<not> is_space c))) ?R2"
  from assms[unfolded log_rx_unfold] obtain k0 s0 g0 where
    a0: "(k0, s0, g0) \<in> set (ms Bos (k, s, g))" and
    r0: "(k', s', g') \<in> set (ms ?R1 (k0, s0, g0))" by (rule ms_SeqE)
  from a0 have s0: "s0 = s" by (simp only: in_ms_Bos)
  from r0 obtain k1 s1 g1 where
    a1: "(k1, s1, g1) \<in> set (ms (Grp 1 (Plus (\<lambda>c. \<not> is_space c))) (k0, s0, g0))" and
    r1: "(k', s', g') \<in> set (ms ?R2 (k1, s1, g1))" by (rule ms_SeqE)
  from a1 obtain ts where ts: "ts \<noteq> []" "list_all (\<lambda>c. \<not> is_space c) ts" "s0 = ts @ s1"
    by (rule ms_Grp_PlusE)
  from r1 obtain k2 s2 g2 where
    a2: "(k2, s2, g2) \<in> set (ms (Plus is_space) (k1, s1, g1))" and
    r2: "(k', s', g') \<in> set (ms ?R3 (k2, s2, g2))" by (rule ms_SeqE)
  from a2 obtain ws1 where ws1: "ws1 \<noteq> []" "list_all is_space ws1" "s1 = ws1 @ s2"
    by (rule ms_PlusE)
  from r2 obtain k3 s3 g3 where
    a3: "(k3, s3, g3) \<in> set (ms (lit ''['') (k2, s2, g2))" and
    r3: "(k', s', g') \<in> set (ms ?R4 (k3, s3, g3))" by (rule ms_SeqE)
  from a3 have s2: "s2 = ''['' @ s3" by (rule ms_LitD)
  from r3 obtain k4 s4 g4 where
    a4: "(k4, s4, g4) \<in> set (ms (Grp 2 (Plus (\<lambda>c. c \<noteq> CHR '']''))) (k3, s3, g3))" and
    r4: "(k', s', g') \<in> set (ms ?R5 (k4, s4, g4))" by (rule ms_SeqE)
  from a4 obtain sv where sv: "sv \<noteq> []" "list_all (\<lambda>c. c \<noteq> CHR '']'') sv" "s3 = sv @ s4"
    by (rule ms_Grp_PlusE)
  from r4 obtain k5 s5 g5 where
    a5: "(k5, s5, g5) \<in> set (ms (lit '']'') (k4, s4, g4))" and
    r5: "(k', s', g') \<in> set (ms ?R6 (k5, s5, g5))" by (rule ms_SeqE)
  from a5 have s4: "s4 = '']'' @ s5" by (rule ms_LitD)
  from r5 obtain k6 s6 g6 where
    a6: "(k6, s6, g6) \<in> set (ms (Plus is_space) (k5, s5, g5))" and
    r6: "(k', s', g') \<in> set (ms ?R7 (k6, s6, g6))" by (rule ms_SeqE)
  from a6 obtain ws2 where ws2: "ws2 \<noteq> []" "list_all is_space ws2" "s5 = ws2 @ s6"
    by (rule ms_PlusE)
  from r6 obtain k7 s7 g7 where
    a7: "(k7, s7, g7) \<in> set (ms (Grp 3 (Plus is_word)) (k6, s6, g6))" and
    r7: "(k', s', g') \<in> set (ms ?R8 (k7, s7, g7))" by (rule ms_SeqE)
  from a7 obtain lv where lv: "lv \<noteq> []" "list_all is_word lv" "s6 = lv @ s7"
    by (rule ms_Grp_PlusE)
  from r7 obtain k8 s8 g8 where
    a8: "(k8, s8, g8) \<in> set (ms (lit '':'') (k7, s7, g7))" and
    r8: "(k', s', g') \<in> set (ms ?R9 (k8, s8, g8))" by (rule ms_SeqE)
  from a8 have s7: "s7 = '':'' @ s8" by (rule ms_LitD)
  from r8 obtain k9 s9 g9 where
    a9: "(k9, s9, g9) \<in> set (ms (Plus is_space) (k8, s8, g8))" and
    r9: "(k', s', g') \<in> set (ms ?R10 (k9, s9, g9))" by (rule ms_SeqE)
  from a9 obtain ws3 where ws3: "ws3 \<noteq> []" "list_all is_space ws3" "s8 = ws3 @ s9"
    by (rule ms_PlusE)
  from r9 obtain k10 s10 g10 where
    a10: "(k10, s10, g10) \<in> set (ms (Grp 4 (Star (\<lambda>c. c \<noteq> CHR 0x0A))) (k9, s9, g9))" and
    r10: "(k', s', g') \<in> set (ms ?R11 (k10, s10, g10))" by (rule ms_SeqE)
  from a10 obtain msg where msg: "list_all (\<lambda>c. c \<noteq> CHR 0x0A) msg" "s9 = msg @ s10"
    by (rule ms_Grp_StarE)
  from r10 have e: "s' = s10" "s10 = [] \<or> s10 = [CHR 0x0A]"
    by (simp_all only: in_ms_Eos)
  have "log_grammar ts ws1 sv ws2 lv ws3 msg"
    unfolding log_grammar_def using ts ws1 sv ws2 lv ws3 msg by simp
  moreover have "s = log_line ts ws1 sv ws2 lv ws3 msg @ s'"
    unfolding log_line_def using s0 ts(3) ws1(3) s2 sv(3) s4 ws2(3) lv(3) s7 ws3(3) msg(2) e(1)
    by simp
  ultimately show ?thesis using e by blast
qed

lemma strip_last: "strip x = y @ [c] \<Longrightarrow> \<not> is_space c"
proof -
  assume "strip x = y @ [c]"
  then have "rev (strip x) = c # rev y" by simp
  then have "dropWhile is_space (rev (dropWhile is_space x)) = c # rev y"
    by (simp add: strip_def)
  then show ?thesis using hd_dropWhile[of is_space "rev (dropWhile is_space x)"] by auto
qed

lemma re_match_leads:
  "leads r (0, s, Map.empty) t G \<Longrightarrow> \<exists>k'. re_match r s = Some (k', t, G)"
  by (auto simp: leads_def re_match_def)

lemma re_match_in:
  "re_match r s = Some m \<Longrightarrow> m \<in> set (ms r (0, s, Map.empty))"
  by (auto simp: re_match_def split: list.splits)

lemma log_rx_groups:
  assumes "re_match log_rx s = Some m"
  shows "\<exists>ts sv lv msg. group m 1 = Some ts \<and> group m 2 = Some sv
           \<and> group m 3 = Some lv \<and> group m 4 = Some msg"
proof -
  obtain k' s' g' where m: "m = (k', s', g')" by (cases m)
  with re_match_in[OF assms] have in_ms: "(k', s', g') \<in> set (ms log_rx (0, s, Map.empty))"
    by simp
  have "sets_grp 1 log_rx" "sets_grp 2 log_rx" "sets_grp 3 log_rx" "sets_grp 4 log_rx"
    by (simp_all add: log_rx_def)
  with ms_sets[OF in_ms] have "g' 1 \<noteq> None" "g' 2 \<noteq> None" "g' 3 \<noteq> None" "g' 4 \<noteq> None"
    by blast+
  with m show ?thesis by (auto simp: group_def)
qed

lemma parse_log_line_Some:
  assumes g: "log_grammar ts ws1 sv ws2 lv ws3 msg"
    and l: "strip line = log_line ts ws1 sv ws2 lv ws3 msg"
    and m: "dropWhile is_space msg = msg"
  shows "parse_log_line line =
           Some \<lparr>timestamp = ts, service = sv, level = lv, message = msg\<rparr>"
proof -
  from g have "ts \<noteq> []" by (simp add: log_grammar_def)
  with l have ne: "strip line \<noteq> []" by (simp add: log_line_def)
  from re_match_leads[OF log_rx_leads[OF g m]] l obtain k' where
    "re_match log_rx (strip line) = Some (k', [], [1 \<mapsto> ts, 2 \<mapsto> sv, 3 \<mapsto> lv, 4 \<mapsto> msg])"
    by auto
  with ne show ?thesis by (simp add: parse_log_line_def group_def)
qed

lemma parse_log_line_None:
  assumes "strip line = []
     \<or> \<not> (\<exists>ts ws1 sv ws2 lv ws3 msg. log_grammar ts ws1 sv ws2 lv ws3 msg
            \<and> strip line = log_line ts ws1 sv ws2 lv ws3 msg)"
  shows "parse_log_line line = None"
proof (cases "strip line = []")
  case True
  then show ?thesis by (simp add: parse_log_line_def)
next
  case False
  with assms have no: "\<not> (\<exists>ts ws1 sv ws2 lv ws3 msg. log_grammar ts ws1 sv ws2 lv ws3 msg
            \<and> strip line = log_line ts ws1 sv ws2 lv ws3 msg)" by blast
  have "re_match log_rx (strip line) = None"
  proof (cases "re_match log_rx (strip line)")
    case (Some m)
    obtain k' s' g' where m: "m = (k', s', g')" by (cases m)
    with re_match_in[OF Some] have "(k', s', g') \<in> set (ms log_rx (0, strip line, Map.empty))"
      by simp
    from log_rx_sound[OF this] obtain ts ws1 sv ws2 lv ws3 msg where
      d: "log_grammar ts ws1 sv ws2 lv ws3 msg"
         "strip line = log_line ts ws1 sv ws2 lv ws3 msg @ s'" "s' = [] \<or> s' = [CHR 0x0A]"
      by blast
    have "s' = []"
    proof (rule ccontr)
      assume "s' \<noteq> []"
      with d(3) have "s' = [CHR 0x0A]" by simp
      with d(2) strip_last[of line "log_line ts ws1 sv ws2 lv ws3 msg" "CHR 0x0A"]
      show False by (simp add: space_tab)
    qed
    with d(2) have "strip line = log_line ts ws1 sv ws2 lv ws3 msg" by simp
    with d(1) no show ?thesis by blast
  qed simp
  then show ?thesis by (simp add: parse_log_line_def Let_def)
qed

lemma parse_log_line_any_split:
  assumes g: "log_grammar ts ws1 sv ws2 lv ws3 msg"
    and l: "strip line = log_line ts ws1 sv ws2 lv ws3 msg"
  shows "parse_log_line line =
           Some \<lparr>timestamp = ts, service = sv, level = lv, message = dropWhile is_space msg\<rparr>"
proof -
  let ?ws = "ws3 @ takeWhile is_space msg"
  let ?m = "dropWhile is_space msg"
  have "list_all is_space (takeWhile is_space msg)"
    by (auto simp: list_all_iff dest: set_takeWhileD)
  moreover have "list_all (\<lambda>c. c \<noteq> CHR 0x0A) ?m"
    using g by (auto simp: log_grammar_def list_all_iff dest: set_dropWhileD)
  ultimately have g': "log_grammar ts ws1 sv ws2 lv ?ws ?m"
    using g by (simp add: log_grammar_def)
  have l': "strip line = log_line ts ws1 sv ws2 lv ?ws ?m"
    using l by (simp add: log_line_def)
  have m': "dropWhile is_space ?m = ?m"
    by (rule dropWhile_idem)
  from parse_log_line_Some[OF g' l' m'] show ?thesis .
qed

text \<open>
  Claim C6. When the line, trimmed, is composed by the grammar, \<open>parse_log_line\<close>
  returns the record of the four parts as they stand in the line, nothing trimmed and
  no letter changed: the timestamp, the service, the level, and as message what follows
  the whole run of whitespace behind the colon (the pattern's separator \<open>\s+\<close> is
  greedy): \<open>msg\<close> itself when \<open>msg\<close> does not start with whitespace. When the trimmed
  line is empty, or is not composed by the grammar in any way, it returns \<open>None\<close>.
\<close>

theorem parse_log_line_grammar:
  "(log_grammar ts ws1 sv ws2 lv ws3 msg
      \<and> strip line = ts @ ws1 @ ''['' @ sv @ '']'' @ ws2 @ lv @ '':'' @ ws3 @ msg
    \<longrightarrow> parse_log_line line =
          Some \<lparr>timestamp = ts, service = sv, level = lv, message = dropWhile is_space msg\<rparr>
        \<and> (dropWhile is_space msg = msg
          \<longrightarrow> parse_log_line line =
                Some \<lparr>timestamp = ts, service = sv, level = lv, message = msg\<rparr>))
   \<and> (strip line' = []
       \<or> \<not> (\<exists>ts ws1 sv ws2 lv ws3 msg. log_grammar ts ws1 sv ws2 lv ws3 msg
              \<and> strip line' = ts @ ws1 @ ''['' @ sv @ '']'' @ ws2 @ lv @ '':'' @ ws3 @ msg)
    \<longrightarrow> parse_log_line line' = None)"
proof -
  have "parse_log_line line =
          Some \<lparr>timestamp = ts, service = sv, level = lv, message = dropWhile is_space msg\<rparr>
        \<and> (dropWhile is_space msg = msg
          \<longrightarrow> parse_log_line line =
                Some \<lparr>timestamp = ts, service = sv, level = lv, message = msg\<rparr>)"
    if "log_grammar ts ws1 sv ws2 lv ws3 msg"
      and "strip line = log_line ts ws1 sv ws2 lv ws3 msg"
    using parse_log_line_any_split[OF that] by simp
  moreover have "parse_log_line line' = None"
    if "strip line' = []
       \<or> \<not> (\<exists>ts ws1 sv ws2 lv ws3 msg. log_grammar ts ws1 sv ws2 lv ws3 msg
              \<and> strip line' = log_line ts ws1 sv ws2 lv ws3 msg)"
    using parse_log_line_None[OF that] .
  ultimately show ?thesis unfolding log_line_def by blast
qed

text \<open>
  A line with whitespace around it and two blanks before the level; a blank line; a
  line without brackets.
\<close>

theorem parse_log_line_grammar_witness:
  "parse_log_line ''  09:15 [auth]  WARN: token expired  '' =
     Some \<lparr>timestamp = ''09:15'', service = ''auth'', level = ''WARN'',
            message = ''token expired''\<rparr>
   \<and> parse_log_line ''   '' = None
   \<and> parse_log_line ''no brackets here'' = None"
proof -
  have h1: "log_grammar ''09:15'' '' '' ''auth'' ''  '' ''WARN'' '' '' ''token expired''"
    by (simp add: log_grammar_def space_tab word_tab)
  have h2: "strip ''  09:15 [auth]  WARN: token expired  '' =
      ''09:15'' @ '' '' @ ''['' @ ''auth'' @ '']'' @ ''  '' @ ''WARN'' @ '':'' @ '' ''
        @ ''token expired''"
    by (simp add: strip_def space_tab)
  have h3: "dropWhile is_space ''token expired'' = ''token expired''"
    by (simp add: space_tab)
  have h4: "strip ''   '' = []"
    by (simp add: strip_def space_tab)
  have h5: "\<not> (\<exists>ts ws1 sv ws2 lv ws3 msg. log_grammar ts ws1 sv ws2 lv ws3 msg
      \<and> strip ''no brackets here'' = ts @ ws1 @ ''['' @ sv @ '']'' @ ws2 @ lv @ '':'' @ ws3 @ msg)"
  proof
    assume "\<exists>ts ws1 sv ws2 lv ws3 msg. log_grammar ts ws1 sv ws2 lv ws3 msg
      \<and> strip ''no brackets here'' = ts @ ws1 @ ''['' @ sv @ '']'' @ ws2 @ lv @ '':'' @ ws3 @ msg"
    then obtain ts ws1 sv ws2 lv ws3 msg where
      "strip ''no brackets here'' = ts @ ws1 @ ''['' @ sv @ '']'' @ ws2 @ lv @ '':'' @ ws3 @ msg"
      by blast
    then have "CHR ''['' \<in> set (strip ''no brackets here'')" by simp
    moreover have "strip ''no brackets here'' = ''no brackets here''"
      by (simp add: strip_def space_tab)
    ultimately show False by simp
  qed
  have a: "parse_log_line ''  09:15 [auth]  WARN: token expired  '' =
     Some \<lparr>timestamp = ''09:15'', service = ''auth'', level = ''WARN'',
            message = ''token expired''\<rparr>"
    using parse_log_line_grammar[where ts = "''09:15''" and ?ws1.0 = "'' ''" and sv = "''auth''"
        and ?ws2.0 = "''  ''" and lv = "''WARN''" and ?ws3.0 = "'' ''" and msg = "''token expired''"
        and line = "''  09:15 [auth]  WARN: token expired  ''"]
      h1 h2 h3
    by blast
  have b: "parse_log_line ''   '' = None"
    using parse_log_line_grammar[where line' = "''   ''"] h4 by blast
  have c: "parse_log_line ''no brackets here'' = None"
    using parse_log_line_grammar[where line' = "''no brackets here''"] h5 by blast
  from a b c show ?thesis by blast
qed

section \<open>The end-to-end scenario\<close>

lemma scenario_parse:
  "parse_log_line ''2024-01-01T00:00:00 [orders] ERROR: connection timed out after 30s'' =
     Some \<lparr>timestamp = ''2024-01-01T00:00:00'', service = ''orders'', level = ''ERROR'',
            message = ''connection timed out after 30s''\<rparr>"
  "parse_log_line ''2024-01-01T00:00:05 [orders] ERROR: connection timed out after 45s'' =
     Some \<lparr>timestamp = ''2024-01-01T00:00:05'', service = ''orders'', level = ''ERROR'',
            message = ''connection timed out after 45s''\<rparr>"
  by (simp_all add: log_eval_defs)

lemma scenario_keys:
  "derive_incident_key
     \<lparr>timestamp = ''2024-01-01T00:00:00'', service = ''orders'', level = ''ERROR'',
        message = ''connection timed out after 30s''\<rparr> =
     ''orders::connection timed out after <NUM>s''"
  "derive_incident_key
     \<lparr>timestamp = ''2024-01-01T00:00:05'', service = ''orders'', level = ''ERROR'',
        message = ''connection timed out after 45s''\<rparr> =
     ''orders::connection timed out after <NUM>s''"
  by (simp_all add: derive_incident_key_col normalize_def lower_def strip_def
      space_tab decimal_tab lower_tab)

lemma scenario_runbook:
  "list_all (\<lambda>(keyword, runbook). \<not> sublist keyword ''connection timed out after <NUM>s'')
     KNOWLEDGE_BASE"
  "retrieve_runbook ''connection timed out after <NUM>s'' =
     ''No specific runbook found. Follow general triage SOP.''"
  by (simp_all add: retrieve_runbook_def KNOWLEDGE_BASE_def fallback_runbook_def
      py_in_iff_sublist[symmetric])

text \<open>
  Claim C9. The two lines of the scenario both parse; their records have one and the
  same incident key, so \<open>group_incidents\<close> returns one incident holding both; no keyword
  of the knowledge base occurs in the pattern of that key, and \<open>retrieve_runbook\<close>
  returns the fallback text for it.
\<close>

theorem scenario_one_incident_fallback_runbook:
  "parse_log_line ''2024-01-01T00:00:00 [orders] ERROR: connection timed out after 30s'' =
     Some \<lparr>timestamp = ''2024-01-01T00:00:00'', service = ''orders'', level = ''ERROR'',
            message = ''connection timed out after 30s''\<rparr>
   \<and> parse_log_line ''2024-01-01T00:00:05 [orders] ERROR: connection timed out after 45s'' =
     Some \<lparr>timestamp = ''2024-01-01T00:00:05'', service = ''orders'', level = ''ERROR'',
            message = ''connection timed out after 45s''\<rparr>
   \<and> derive_incident_key
       \<lparr>timestamp = ''2024-01-01T00:00:00'', service = ''orders'', level = ''ERROR'',
          message = ''connection timed out after 30s''\<rparr> =
     ''orders::connection timed out after <NUM>s''
   \<and> derive_incident_key
       \<lparr>timestamp = ''2024-01-01T00:00:05'', service = ''orders'', level = ''ERROR'',
          message = ''connection timed out after 45s''\<rparr> =
     ''orders::connection timed out after <NUM>s''
   \<and> group_incidents
       [\<lparr>timestamp = ''2024-01-01T00:00:00'', service = ''orders'', level = ''ERROR'',
          message = ''connection timed out after 30s''\<rparr>,
        \<lparr>timestamp = ''2024-01-01T00:00:05'', service = ''orders'', level = ''ERROR'',
          message = ''connection timed out after 45s''\<rparr>] =
     [(''orders::connection timed out after <NUM>s'',
       [\<lparr>timestamp = ''2024-01-01T00:00:00'', service = ''orders'', level = ''ERROR'',
          message = ''connection timed out after 30s''\<rparr>,
        \<lparr>timestamp = ''2024-01-01T00:00:05'', service = ''orders'', level = ''ERROR'',
          message = ''connection timed out after 45s''\<rparr>])]
   \<and> split1 ''::'' ''orders::connection timed out after <NUM>s'' =
       Some (''orders'', ''connection timed out after <NUM>s'')
   \<and> list_all (\<lambda>(keyword, runbook). \<not> sublist keyword ''connection timed out after <NUM>s'')
       KNOWLEDGE_BASE
   \<and> retrieve_runbook ''connection timed out after <NUM>s'' =
       ''No specific runbook found. Follow general triage SOP.''"
  by (simp add: scenario_parse scenario_keys scenario_runbook group_incidents_def group_step_def)

end
